theory Spec2Isabelle
  imports Main "HOL-Library.Word" "HOL-Library.Monad_Syntax"
begin

unbundle bit_operations_syntax

section \<open>Machine model\<close>

text \<open>
  The allocator of \<^verbatim>\<open>mm.c\<close> runs on a 64-bit target: pointers and \<^verbatim>\<open>size_t\<close> are
  64-bit words with wrap-around arithmetic, \<^verbatim>\<open>int\<close> is a 32-bit word, and the heap is
  a byte-addressed store.  A boundary tag occupies four bytes, little endian.  The store
  is total_words: an access outside the arena, undefined in C, simply reads or writes the byte
  at that address.
\<close>

type_synonym addr = "64 word"
type_synonym size_t = "64 word"
type_synonym c_int = "32 word"
type_synonym memory = "addr \<Rightarrow> 8 word"

definition load32 :: "memory \<Rightarrow> addr \<Rightarrow> 32 word" where
  "load32 m a = ucast (m a) OR push_bit 8 (ucast (m (a + 1)))
     OR push_bit 16 (ucast (m (a + 2))) OR push_bit 24 (ucast (m (a + 3)))"

definition store32 :: "memory \<Rightarrow> addr \<Rightarrow> 32 word \<Rightarrow> memory" where
  "store32 m a v = m(a := ucast v, a + 1 := ucast (drop_bit 8 v),
     a + 2 := ucast (drop_bit 16 v), a + 3 := ucast (drop_bit 24 v))"

text \<open>\<^verbatim>\<open>memmove(dest, src, n)\<close>: the \<open>n\<close> bytes at \<open>src\<close>, as they were before the call,
  appear at \<open>dest\<close>.  \<^verbatim>\<open>memcpy\<close> does the same on disjoint regions and is undefined on
  overlapping ones, which is the result \<open>None\<close>.\<close>

definition memmove :: "addr \<Rightarrow> addr \<Rightarrow> size_t \<Rightarrow> memory \<Rightarrow> memory" where
  "memmove dest src n m = (\<lambda>a. if a - dest < n then m (src + (a - dest)) else m a)"

definition memcpy :: "addr \<Rightarrow> addr \<Rightarrow> size_t \<Rightarrow> memory \<Rightarrow> memory option" where
  "memcpy dest src n m =
     (if n \<noteq> 0 \<and> (dest - src < n \<or> src - dest < n) then None
      else Some (memmove dest src n m))"

subsection \<open>Boundary tags\<close>

text \<open>\<^verbatim>\<open>struct boundary_tag { int inuse:1; int size:31; }\<close>: the in-use flag is bit 0 of
  the tag word, the signed 31-bit size field the bits above it.\<close>

record boundary_tag =
  inuse :: bool
  tsize :: "31 word"

definition encode_tag :: "boundary_tag \<Rightarrow> 32 word" where
  "encode_tag t = push_bit 1 (ucast (tsize t)) OR of_bool (inuse t)"

definition decode_tag :: "32 word \<Rightarrow> boundary_tag" where
  "decode_tag w = \<lparr>inuse = bit w 0, tsize = ucast (drop_bit 1 w)\<rparr>"

definition load_tag :: "memory \<Rightarrow> addr \<Rightarrow> boundary_tag" where
  "load_tag m a = decode_tag (load32 m a)"

definition store_tag :: "memory \<Rightarrow> addr \<Rightarrow> boundary_tag \<Rightarrow> memory" where
  "store_tag m a t = store32 m a (encode_tag t)"

definition FENCE :: boundary_tag where
  "FENCE = \<lparr>inuse = True, tsize = 0\<rparr>"

subsection \<open>Constants\<close>

definition WSIZE :: size_t where
  "WSIZE = 4"

definition MIN_BLOCK_SIZE_WORDS :: size_t where
  "MIN_BLOCK_SIZE_WORDS = 8"

definition CHUNKSIZE :: size_t where
  "CHUNKSIZE = push_bit 7 1"

definition NUM_SIZE_CLASSES :: nat where
  "NUM_SIZE_CLASSES = 10"

text \<open>Modelled from the spec: \<^verbatim>\<open>config.h\<close>, which defines \<^verbatim>\<open>ALIGNMENT\<close>, is not part of
  the sources.  The spec gives the arena's alignment requirement as 16 bytes, and the
  comment on \<^verbatim>\<open>struct block\<close> places every payload at an address that is 0 mod 16.\<close>

definition ALIGNMENT :: size_t where
  "ALIGNMENT = 16"

definition max_sz :: "size_t \<Rightarrow> size_t \<Rightarrow> size_t" where
  "max_sz x y = (if x > y then x else y)"

definition align :: "size_t \<Rightarrow> size_t" where
  "align sz = (sz + ALIGNMENT - 1) AND NOT (ALIGNMENT - 1)"

definition is_aligned :: "size_t \<Rightarrow> bool" where
  "is_aligned sz = (sz mod ALIGNMENT = 0)"

section \<open>Allocator state\<close>

text \<open>
  The globals of \<^verbatim>\<open>mm.c\<close> (\<^verbatim>\<open>heap_listp\<close>, \<^verbatim>\<open>segregatedList\<close>), the heap bytes, and the
  break and limit of the heap-growth primitive.  A free list is kept as the sequence of
  the blocks it links, front first; in C the links live in the payload of the free blocks.

  The field \<open>tag_writes\<close> is a history variable, not a variable of the program: it
  records, latest first, every store of a boundary tag, either a call of
  \<^verbatim>\<open>set_header_and_footer\<close> (with the block and the tag written to its header and footer)
  or a direct assignment of a tag to one address.  Nothing in the program reads it.
\<close>

datatype tag_write =
  Header_and_footer addr boundary_tag
| Direct addr boundary_tag

record heap =
  mem :: memory
  mem_brk :: addr
  mem_max_addr :: addr
  heap_listp :: addr
  segregatedList :: "nat \<Rightarrow> addr list"
  tag_writes :: "tag_write list"

text \<open>Modelled from the spec: \<^verbatim>\<open>memlib.h\<close> is not part of the sources.  The heap-growth
  primitive returns the start of \<open>incr\<close> fresh bytes at the current end of the arena, or
  fails with the null pointer when the arena is exhausted; it never shrinks the arena and
  never moves existing bytes.\<close>

definition mem_sbrk :: "size_t \<Rightarrow> heap \<Rightarrow> addr \<times> heap" where
  "mem_sbrk incr s =
     (if unat (mem_brk s) + unat incr \<le> unat (mem_max_addr s)
      then (mem_brk s, s\<lparr>mem_brk := mem_brk s + incr\<rparr>)
      else (0, s))"

text \<open>Modelled from the spec: \<^verbatim>\<open>list.h\<close> is not part of the sources.  The list primitive
  offers push-front, removal given only the link, and forward iteration.  Removing a link
  that is in no list is undefined in C (its link fields are stale payload bytes): the
  result \<open>None\<close>.  The link fields of a block lie in its payload bytes, between its
  tags; the lists are kept here as lists of block addresses apart from the store, so the
  store of the model says nothing about the payload bytes of a free block.\<close>

definition list_push_front :: "nat \<Rightarrow> addr \<Rightarrow> heap \<Rightarrow> heap" where
  "list_push_front i e s = s\<lparr>segregatedList := (segregatedList s)(i := e # segregatedList s i)\<rparr>"

definition list_remove :: "addr \<Rightarrow> heap \<Rightarrow> heap option" where
  "list_remove e s =
     (if list_ex (\<lambda>i. e \<in> set (segregatedList s i)) [0..<NUM_SIZE_CLASSES]
      then Some (s\<lparr>segregatedList := (\<lambda>i. remove1 e (segregatedList s i))\<rparr>)
      else None)"

section \<open>Block layout\<close>

definition prev_blk_footer :: "addr \<Rightarrow> addr" where
  "prev_blk_footer blk = blk - 4"

definition blk_free :: "heap \<Rightarrow> addr \<Rightarrow> bool" where
  "blk_free s blk = (\<not> inuse (load_tag (mem s) blk))"

definition blk_size :: "heap \<Rightarrow> addr \<Rightarrow> size_t" where
  "blk_size s blk = scast (tsize (load_tag (mem s) blk))"

text \<open>A failed \<^verbatim>\<open>assert\<close> aborts the program: the result \<open>None\<close>, here and below.\<close>

definition prev_blk :: "heap \<Rightarrow> addr \<Rightarrow> addr option" where
  "prev_blk s blk =
     (let prevfooter = prev_blk_footer blk in
      if tsize (load_tag (mem s) prevfooter) = 0 then None
      else Some (blk - WSIZE * scast (tsize (load_tag (mem s) prevfooter))))"

definition next_blk :: "heap \<Rightarrow> addr \<Rightarrow> addr" where
  "next_blk s blk = blk + WSIZE * scast (tsize (load_tag (mem s) blk))"

definition get_footer :: "heap \<Rightarrow> addr \<Rightarrow> addr" where
  "get_footer s blk = (blk + WSIZE * scast (tsize (load_tag (mem s) blk))) - 4"

text \<open>The two field assignments to the header, then the copy of the header into the
  footer, whose address is computed from the size just written.  The \<^verbatim>\<open>int\<close> arguments
  are cut to the width of the bit-fields.\<close>

definition set_header_and_footer :: "addr \<Rightarrow> c_int \<Rightarrow> c_int \<Rightarrow> heap \<Rightarrow> heap" where
  "set_header_and_footer blk sz iu s =
     (let s1 = s\<lparr>mem := store_tag (mem s) blk ((load_tag (mem s) blk)\<lparr>inuse := bit iu 0\<rparr>)\<rparr>;
          s2 = s1\<lparr>mem := store_tag (mem s1) blk ((load_tag (mem s1) blk)\<lparr>tsize := ucast sz\<rparr>)\<rparr>
      in s2\<lparr>mem := store_tag (mem s2) (get_footer s2 blk) (load_tag (mem s2) blk),
            tag_writes := Header_and_footer blk (load_tag (mem s2) blk) # tag_writes s2\<rparr>)"

text \<open>A tag assigned directly to one address, as in \<^verbatim>\<open>initial[2] = FENCE\<close>.\<close>

definition store_direct :: "addr \<Rightarrow> boundary_tag \<Rightarrow> heap \<Rightarrow> heap" where
  "store_direct a t s = s\<lparr>mem := store_tag (mem s) a t, tag_writes := Direct a t # tag_writes s\<rparr>"

definition mark_block_used :: "addr \<Rightarrow> c_int \<Rightarrow> heap \<Rightarrow> heap" where
  "mark_block_used blk sz s = set_header_and_footer blk sz 1 s"

definition mark_block_free :: "addr \<Rightarrow> c_int \<Rightarrow> heap \<Rightarrow> heap" where
  "mark_block_free blk sz s = set_header_and_footer blk sz 0 s"

section \<open>Segregated free lists\<close>

text \<open>\<^verbatim>\<open>int blkSize = blk_size(bp)\<close> is compared as a signed \<^verbatim>\<open>int\<close>.\<close>

definition segregatedListAdd :: "addr \<Rightarrow> heap \<Rightarrow> heap option" where
  "segregatedListAdd bp s =
     (if bp = 0 then None
      else
        let blkSize = (ucast (blk_size s bp) :: c_int) in
        Some (if word_sle blkSize 128 then list_push_front 0 bp s
              else if word_sle blkSize 256 then list_push_front 1 bp s
              else if word_sle blkSize 512 then list_push_front 2 bp s
              else if word_sle blkSize 1024 then list_push_front 3 bp s
              else if word_sle blkSize 2048 then list_push_front 4 bp s
              else if word_sle blkSize 4096 then list_push_front 5 bp s
              else if word_sle blkSize 8192 then list_push_front 6 bp s
              else if word_sle blkSize 16384 then list_push_front 7 bp s
              else if word_sle blkSize 32768 then list_push_front 8 bp s
              else list_push_front 9 bp s))"

section \<open>Coalescing\<close>

definition coalesce :: "addr \<Rightarrow> heap \<Rightarrow> (addr \<times> heap) option" where
  "coalesce bp s =
     (if bp = 0 then None
      else
        let prev_alloc = inuse (load_tag (mem s) (prev_blk_footer bp));
            next_alloc = (\<not> blk_free s (next_blk s bp));
            sz = blk_size s bp
        in
        if sz = 0 then None
        else if prev_alloc \<and> next_alloc then
          do { s1 \<leftarrow> segregatedListAdd bp s; Some (bp, s1) }
        else if prev_alloc \<and> \<not> next_alloc then
          do {
            s1 \<leftarrow> list_remove (next_blk s bp) s;
            let s2 = mark_block_free bp (ucast (sz + blk_size s1 (next_blk s1 bp))) s1;
            s3 \<leftarrow> segregatedListAdd bp s2;
            Some (bp, s3)
          }
        else if \<not> prev_alloc \<and> next_alloc then
          do {
            p \<leftarrow> prev_blk s bp;
            s1 \<leftarrow> list_remove p s;
            bp' \<leftarrow> prev_blk s1 bp;
            let s2 = mark_block_free bp' (ucast (sz + blk_size s1 bp')) s1;
            s3 \<leftarrow> segregatedListAdd bp' s2;
            Some (bp', s3)
          }
        else
          do {
            p \<leftarrow> prev_blk s bp;
            s1 \<leftarrow> list_remove p s;
            s2 \<leftarrow> list_remove (next_blk s1 bp) s1;
            p' \<leftarrow> prev_blk s2 bp;
            p'' \<leftarrow> prev_blk s2 bp;
            let s3 = mark_block_free p'
                       (ucast (sz + blk_size s2 (next_blk s2 bp) + blk_size s2 p'')) s2;
            bp' \<leftarrow> prev_blk s3 bp;
            s4 \<leftarrow> segregatedListAdd bp' s3;
            Some (bp', s4)
          })"

section \<open>Heap extension, placement and fit search\<close>

definition extend_heap :: "size_t \<Rightarrow> heap \<Rightarrow> (addr \<times> heap) option" where
  "extend_heap words s =
     (let (bp, s1) = mem_sbrk (words * WSIZE) s in
      if bp = 0 then Some (0, s1)
      else
        let blk = bp - 4;
            s2 = mark_block_free blk (ucast words) s1;
            s3 = store_direct (next_blk s2 blk) FENCE s2
        in coalesce blk s3)"

definition place :: "addr \<Rightarrow> size_t \<Rightarrow> heap \<Rightarrow> heap option" where
  "place bp asize s =
     (if asize = 0 then None
      else
        let csize = blk_size s bp in
        do {
          s1 \<leftarrow> list_remove bp s;
          if csize - asize \<ge> MIN_BLOCK_SIZE_WORDS then
            do {
              let s2 = mark_block_used bp (ucast asize) s1;
              let bp' = next_blk s2 bp;
              let s3 = mark_block_free bp' (ucast (csize - asize)) s2;
              segregatedListAdd bp' s3
            }
          else Some (mark_block_used bp (ucast csize) s1)
        })"

text \<open>The inner loop of \<^verbatim>\<open>find_fit\<close> over one bucket, with the counter \<open>count\<close> as it
  stands before the element is visited: \<open>Some bp\<close> is \<^verbatim>\<open>return bp\<close>, \<open>None\<close> is the
  loop left by \<^verbatim>\<open>break\<close> or at the end of the list.\<close>

fun scan_list :: "heap \<Rightarrow> size_t \<Rightarrow> int \<Rightarrow> addr list \<Rightarrow> addr option" where
  "scan_list s asize count [] = None"
| "scan_list s asize count (bp # es) =
     (let count' = count + 1 in
      if count' \<ge> 5 then None
      else if blk_free s bp \<and> asize \<le> blk_size s bp then Some bp
      else scan_list s asize count' es)"

text \<open>The outer loop over the buckets still to be searched; the null pointer when none fits.\<close>

fun find_fit_loop :: "heap \<Rightarrow> size_t \<Rightarrow> nat list \<Rightarrow> addr" where
  "find_fit_loop s asize [] = 0"
| "find_fit_loop s asize (i # is) =
     (case scan_list s asize 0 (segregatedList s i) of
        Some bp \<Rightarrow> bp
      | None \<Rightarrow> find_fit_loop s asize is)"

definition find_fit :: "size_t \<Rightarrow> heap \<Rightarrow> addr option" where
  "find_fit asize s =
     (if asize = 0 then None else Some (find_fit_loop s asize [0..<NUM_SIZE_CLASSES]))"

section \<open>Public operations\<close>

definition mm_init :: "heap \<Rightarrow> (int \<times> heap) option" where
  "mm_init s =
     (let (initial, s1) = mem_sbrk (4 * 4) s in
      if initial = 0 then Some (- 1, s1)
      else
        let s2 = s1\<lparr>segregatedList :=
                     (\<lambda>i. if i < NUM_SIZE_CLASSES then [] else segregatedList s1 i)\<rparr>;
            s3 = store_direct (initial + 2 * 4) FENCE s2;
            s4 = s3\<lparr>heap_listp := initial + 3 * 4\<rparr>;
            s5 = store_direct (initial + 3 * 4) FENCE s4
        in
        do {
          (bp, s6) \<leftarrow> extend_heap CHUNKSIZE s5;
          Some (if bp = 0 then - 1 else 0, s6)
        })"

text \<open>Lines 176 to 192 of \<^verbatim>\<open>mm_malloc\<close>: the block size in words that a request is
  given, \<open>None\<close> where the function returns the null pointer before searching.\<close>

definition malloc_awords :: "size_t \<Rightarrow> size_t option" where
  "malloc_awords size0 =
     (if size0 = 0 then None
      else
        let sz = (if size0 = 448 then 512 else if size0 = 112 then 128 else size0);
            bsize = align (sz + 2 * 4)
        in
        if bsize < sz then None
        else Some (max_sz MIN_BLOCK_SIZE_WORDS (bsize div WSIZE)))"

definition mm_malloc :: "size_t \<Rightarrow> heap \<Rightarrow> (addr \<times> heap) option" where
  "mm_malloc size0 s =
     (case malloc_awords size0 of
        None \<Rightarrow> Some (0, s)
      | Some awords \<Rightarrow>
          do {
            bp \<leftarrow> find_fit awords s;
            if bp \<noteq> 0 then
              do { s1 \<leftarrow> place bp awords s; Some (bp + 4, s1) }
            else
              do {
                let extendwords = max_sz awords CHUNKSIZE;
                (bp, s1) \<leftarrow> extend_heap extendwords s;
                if bp = 0 then Some (0, s1)
                else do { s2 \<leftarrow> place bp awords s1; Some (bp + 4, s2) }
              }
          })"

definition mm_free :: "addr \<Rightarrow> heap \<Rightarrow> heap option" where
  "mm_free ptr s =
     (if heap_listp s = 0 then None
      else if ptr = 0 then Some s
      else
        let bp = ptr - 4 in
        if bp = 0 then None
        else
          let sz = blk_size s bp;
              s1 = mark_block_free bp (ucast sz) s
          in do { (r, s2) \<leftarrow> coalesce bp s1; Some s2 })"

text \<open>Lines 256 to 261 of \<^verbatim>\<open>mm_realloc\<close>: the block size in words needed for the new
  size, \<open>None\<close> where the function returns the null pointer.\<close>

definition realloc_awords :: "size_t \<Rightarrow> size_t option" where
  "realloc_awords sz =
     (let bsize = align (sz + 2 * 4) in
      if bsize < sz then None
      else Some (max_sz MIN_BLOCK_SIZE_WORDS (bsize div WSIZE)))"

text \<open>Lines 297 to 310 of \<^verbatim>\<open>mm_realloc\<close>: allocate, copy, free.\<close>

definition realloc_fallback :: "addr \<Rightarrow> size_t \<Rightarrow> size_t \<Rightarrow> heap \<Rightarrow> (addr \<times> heap) option" where
  "realloc_fallback ptr sz oldpayloadsize s =
     do {
       (newptr, s1) \<leftarrow> mm_malloc sz s;
       if newptr = 0 then Some (0, s1)
       else
         do {
           let n = (if sz < oldpayloadsize then sz else oldpayloadsize);
           m \<leftarrow> memcpy newptr ptr n (mem s1);
           s3 \<leftarrow> mm_free ptr (s1\<lparr>mem := m\<rparr>);
           Some (newptr, s3)
         }
     }"

definition mm_realloc :: "addr \<Rightarrow> size_t \<Rightarrow> heap \<Rightarrow> (addr \<times> heap) option" where
  "mm_realloc ptr sz s =
     (if sz = 0 then do { s' \<leftarrow> mm_free ptr s; Some (0, s') }
      else if ptr = 0 then mm_malloc sz s
      else
        let oldblock = ptr - 4 in
        if oldblock = 0 then None
        else
          let oldpayloadsize = blk_size s oldblock * WSIZE - 2 * 4 in
          if oldpayloadsize = 0 then None
          else
            let prev_alloc = inuse (load_tag (mem s) (prev_blk_footer oldblock));
                next_alloc = (\<not> blk_free s (next_blk s oldblock))
            in
            case realloc_awords sz of
              None \<Rightarrow> Some (0, s)
            | Some awords \<Rightarrow>
                do {
                  c1 \<leftarrow> (if \<not> prev_alloc \<and> next_alloc
                         then do { p \<leftarrow> prev_blk s oldblock;
                                   Some (blk_size s p + blk_size s oldblock \<ge> awords) }
                         else Some False);
                  if c1 then
                    do {
                      p \<leftarrow> prev_blk s oldblock;
                      s1 \<leftarrow> list_remove p s;
                      oldblock' \<leftarrow> prev_blk s1 oldblock;
                      let s2 = mark_block_used oldblock'
                                 (ucast (blk_size s1 (next_blk s1 oldblock')
                                         + blk_size s1 oldblock')) s1;
                      let s3 = s2\<lparr>mem := memmove (oldblock' + 4) ptr oldpayloadsize (mem s2)\<rparr>;
                      Some (oldblock' + 4, s3)
                    }
                  else if \<not> next_alloc
                          \<and> blk_size s (next_blk s oldblock) + blk_size s oldblock \<ge> awords then
                    do {
                      s1 \<leftarrow> list_remove (next_blk s oldblock) s;
                      let s2 = mark_block_used oldblock
                                 (ucast (blk_size s1 (next_blk s1 oldblock)
                                         + blk_size s1 oldblock)) s1;
                      Some (oldblock + 4, s2)
                    }
                  else
                    do {
                      c4 \<leftarrow> (if \<not> prev_alloc \<and> \<not> next_alloc
                             then do { p \<leftarrow> prev_blk s oldblock;
                                       Some (blk_size s p + blk_size s oldblock
                                             + blk_size s (next_blk s oldblock) \<ge> awords) }
                             else Some False);
                      if c4 then
                        do {
                          s1 \<leftarrow> list_remove (next_blk s oldblock) s;
                          p \<leftarrow> prev_blk s1 oldblock;
                          s2 \<leftarrow> list_remove p s1;
                          p' \<leftarrow> prev_blk s2 oldblock;
                          p'' \<leftarrow> prev_blk s2 oldblock;
                          let s3 = mark_block_used p'
                                     (ucast (blk_size s2 (next_blk s2 oldblock)
                                             + blk_size s2 oldblock + blk_size s2 p'')) s2;
                          oldblock' \<leftarrow> prev_blk s3 oldblock;
                          let s4 = s3\<lparr>mem := memmove (oldblock' + 4) ptr oldpayloadsize (mem s3)\<rparr>;
                          Some (oldblock' + 4, s4)
                        }
                      else if prev_alloc \<and> next_blk s oldblock = 0 then
                        do {
                          (r, s1) \<leftarrow> extend_heap CHUNKSIZE s;
                          let s2 = mark_block_used oldblock
                                     (ucast (blk_size s1 (next_blk s1 oldblock)
                                             + blk_size s1 oldblock)) s1;
                          Some (oldblock + 4, s2)
                        }
                      else realloc_fallback ptr sz oldpayloadsize s
                    }
                })"

section \<open>Specification-level definitions\<close>

text \<open>The normalisation rule in the words of the specification, on natural numbers: add
  two boundary-tag sizes (8 bytes), round up to the alignment constant (16), divide by
  the word size (4), and clamp to the minimum block size of 8 words.\<close>

definition spec_normalize :: "nat \<Rightarrow> nat" where
  "spec_normalize n = max 8 (((n + 8 + 15) div 16 * 16) div 4)"

text \<open>A block fits a request when it is free and at least of the needed size.\<close>

definition fits :: "heap \<Rightarrow> size_t \<Rightarrow> addr \<Rightarrow> bool" where
  "fits s asize bp = (blk_free s bp \<and> asize \<le> blk_size s bp)"

section \<open>Heap layout\<close>

text \<open>
  The arena as a sequence of blocks, each given by its size in words and its in-use flag.
  The sequence starts one word above \<open>base\<close>, the address of the prologue fence
  (\<open>heap_listp - 4\<close>); the epilogue fence follows the last block.  \<open>word_at base k\<close> is
  the address \<open>k\<close> words above \<open>base\<close>.
\<close>

definition tag :: "bool \<Rightarrow> nat \<Rightarrow> boundary_tag" where
  "tag u n = \<lparr>inuse = u, tsize = of_nat n\<rparr>"

definition word_at :: "addr \<Rightarrow> nat \<Rightarrow> addr" where
  "word_at base k = base + 4 * of_nat k"

definition total_words :: "(nat \<times> bool) list \<Rightarrow> nat" where
  "total_words bs = sum_list (map fst bs)"

text \<open>Every block of the sequence, laid out from word \<open>k\<close> on, has its tag in its header
  and in its footer.\<close>

fun blocks_at :: "memory \<Rightarrow> addr \<Rightarrow> nat \<Rightarrow> (nat \<times> bool) list \<Rightarrow> bool" where
  "blocks_at m base k [] = True"
| "blocks_at m base k ((n, u) # bs) =
     (load_tag m (word_at base k) = tag u n
      \<and> load_tag m (word_at base (k + n - 1)) = tag u n
      \<and> blocks_at m base (k + n) bs)"

text \<open>The addresses of the free blocks of the sequence, in address order.\<close>

fun free_blocks :: "addr \<Rightarrow> nat \<Rightarrow> (nat \<times> bool) list \<Rightarrow> addr list" where
  "free_blocks base k [] = []"
| "free_blocks base k ((n, u) # bs) =
     (if u then [] else [word_at base k]) @ free_blocks base (k + n) bs"

definition all_free :: "heap \<Rightarrow> addr list" where
  "all_free s = concat (map (segregatedList s) [0..<NUM_SIZE_CLASSES])"

text \<open>
  The memory part of a well-formed heap with block sequence \<open>bs\<close>: the arena lies between
  the prologue fence and the break without wrapping around the address space, its limit
  is at most 4 GiB above its start (a tag holds sizes below \<open>2^30\<close> words), every block
  has at least the minimum size, the two fences are in place and every block carries its
  tag in header and footer.
\<close>

definition layout_ok :: "heap \<Rightarrow> (nat \<times> bool) list \<Rightarrow> bool" where
  "layout_ok s bs =
     (let base = heap_listp s - 4 in
      4 \<le> unat (heap_listp s)
      \<and> unat base + 4 * (total_words bs + 2) = unat (mem_brk s)
      \<and> unat (mem_brk s) \<le> unat (mem_max_addr s)
      \<and> unat (mem_max_addr s) \<le> unat base + 2 ^ 32
      \<and> list_all (\<lambda>(n, u). 8 \<le> n) bs
      \<and> load_tag (mem s) base = FENCE
      \<and> load_tag (mem s) (word_at base (1 + total_words bs)) = FENCE
      \<and> blocks_at (mem s) base 1 bs)"

text \<open>The bucket that \<^verbatim>\<open>segregatedListAdd\<close> selects for a block size.\<close>

definition size_class :: "c_int \<Rightarrow> nat" where
  "size_class blkSize =
     (if word_sle blkSize 128 then 0
      else if word_sle blkSize 256 then 1
      else if word_sle blkSize 512 then 2
      else if word_sle blkSize 1024 then 3
      else if word_sle blkSize 2048 then 4
      else if word_sle blkSize 4096 then 5
      else if word_sle blkSize 8192 then 6
      else if word_sle blkSize 16384 then 7
      else if word_sle blkSize 32768 then 8
      else 9)"

text \<open>The free lists hold the blocks of the set \<open>F\<close>, each once.\<close>

definition lists_ok :: "heap \<Rightarrow> addr set \<Rightarrow> bool" where
  "lists_ok s F = (distinct (all_free s) \<and> set (all_free s) = F)"

text \<open>A well-formed heap: the layout, and the free lists hold exactly the free blocks.\<close>

definition heap_ok :: "heap \<Rightarrow> (nat \<times> bool) list \<Rightarrow> bool" where
  "heap_ok s bs = (layout_ok s bs \<and> lists_ok s (set (free_blocks (heap_listp s - 4) 1 bs)))"

section \<open>Abstract effect of the operations on the block sequence\<close>

text \<open>The store after a call of \<^verbatim>\<open>set_header_and_footer\<close> on the block \<open>k\<close> words above
  \<open>base\<close> with size \<open>n\<close> and in-use flag \<open>u\<close>.\<close>

definition put_block :: "addr \<Rightarrow> nat \<Rightarrow> nat \<Rightarrow> bool \<Rightarrow> heap \<Rightarrow> heap" where
  "put_block base k n u s =
     s\<lparr>mem := store_tag (store_tag (mem s) (word_at base k) (tag u n))
                 (word_at base (k + n - 1)) (tag u n),
       tag_writes := Header_and_footer (word_at base k) (tag u n) # tag_writes s\<rparr>"

text \<open>Placing a request of \<open>a\<close> words in a free block of \<open>c\<close> words.\<close>

definition place_blocks :: "nat \<Rightarrow> nat \<Rightarrow> (nat \<times> bool) list" where
  "place_blocks c a = (if 8 \<le> c - a then [(a, True), (c - a, False)] else [(c, True)])"

text \<open>Coalescing the free block of \<open>n\<close> words that stands between the blocks \<open>xs\<close> and
  the blocks \<open>ys\<close>: a free last block of \<open>xs\<close> and a free first block of \<open>ys\<close> are
  absorbed (size 0 stands for no block absorbed).\<close>

definition absorb_prev :: "(nat \<times> bool) list \<Rightarrow> (nat \<times> bool) list \<times> nat" where
  "absorb_prev xs =
     (if xs \<noteq> [] \<and> \<not> snd (last xs) then (butlast xs, fst (last xs)) else (xs, 0))"

definition absorb_next :: "(nat \<times> bool) list \<Rightarrow> nat \<times> (nat \<times> bool) list" where
  "absorb_next ys =
     (if ys \<noteq> [] \<and> \<not> snd (hd ys) then (fst (hd ys), tl ys) else (0, ys))"

definition coalesce_blocks ::
  "(nat \<times> bool) list \<Rightarrow> nat \<Rightarrow> (nat \<times> bool) list \<Rightarrow> (nat \<times> bool) list" where
  "coalesce_blocks xs n ys =
     fst (absorb_prev xs) @ (snd (absorb_prev xs) + n + fst (absorb_next ys), False)
       # snd (absorb_next ys)"

text \<open>The allocated blocks of a sequence laid out from word \<open>k\<close> on, each with the
  offset of its header and its size, and the property that every payload byte of every
  allocated block of the sequence is the same in two stores.\<close>

fun used_blocks :: "nat \<Rightarrow> (nat \<times> bool) list \<Rightarrow> (nat \<times> nat) list" where
  "used_blocks k [] = []"
| "used_blocks k ((n, u) # bs) = (if u then [(k, n)] else []) @ used_blocks (k + n) bs"

definition payloads_kept :: "addr \<Rightarrow> (nat \<times> bool) list \<Rightarrow> memory \<Rightarrow> memory \<Rightarrow> bool" where
  "payloads_kept base bs m m' =
     (\<forall>(k, n) \<in> set (used_blocks 1 bs). \<forall>i < 4 * (n - 2).
        m' (word_at base (k + 1) + of_nat i) = m (word_at base (k + 1) + of_nat i))"

text \<open>Resizing in place the allocated block of \<open>n\<close> words that stands between the blocks
  \<open>xs\<close> and the blocks \<open>ys\<close>, for a needed size of \<open>a\<close> words: the blocks before, the
  size of the resized block and the blocks after it, in the order in which \<^verbatim>\<open>mm_realloc\<close>
  tries its cases 1, 2 and 4; \<open>None\<close> when none of them applies.\<close>

definition inplace_blocks ::
  "(nat \<times> bool) list \<Rightarrow> nat \<Rightarrow> (nat \<times> bool) list \<Rightarrow> nat
     \<Rightarrow> ((nat \<times> bool) list \<times> nat \<times> (nat \<times> bool) list) option" where
  "inplace_blocks xs n ys a =
     (let (xs', p) = absorb_prev xs; (q, ys') = absorb_next ys in
      if p \<noteq> 0 \<and> q = 0 \<and> a \<le> p + n then Some (xs', p + n, ys)
      else if q \<noteq> 0 \<and> a \<le> n + q then Some (xs, n + q, ys')
      else if p \<noteq> 0 \<and> q \<noteq> 0 \<and> a \<le> p + n + q then Some (xs', p + n + q, ys')
      else None)"

text \<open>A log of tag writes in which every tag that was assigned directly, and not through
  \<^verbatim>\<open>set_header_and_footer\<close>, is a fence.\<close>

definition fences_only :: "tag_write list \<Rightarrow> bool" where
  "fences_only ws =
     list_all (\<lambda>w. case w of Header_and_footer a t \<Rightarrow> True | Direct a t \<Rightarrow> t = FENCE) ws"

section \<open>Example heaps\<close>

text \<open>The store in which the blocks of a sequence have been written from word \<open>k\<close> on,
  and the heap with prologue fence at \<open>base\<close>, the given blocks, the epilogue fence, and
  the given free lists.\<close>

fun write_blocks :: "memory \<Rightarrow> addr \<Rightarrow> nat \<Rightarrow> (nat \<times> bool) list \<Rightarrow> memory" where
  "write_blocks m base k [] = m"
| "write_blocks m base k ((n, u) # bs) =
     write_blocks (store_tag (store_tag m (word_at base k) (tag u n))
                     (word_at base (k + n - 1)) (tag u n))
       base (k + n) bs"

definition mk_heap :: "addr \<Rightarrow> addr \<Rightarrow> (nat \<times> bool) list \<Rightarrow> (nat \<Rightarrow> addr list) \<Rightarrow> heap" where
  "mk_heap base limit bs fl =
     \<lparr>mem = store_tag (write_blocks (store_tag (\<lambda>_. 0) base FENCE) base 1 bs)
              (word_at base (1 + total_words bs)) FENCE,
      mem_brk = word_at base (total_words bs + 2),
      mem_max_addr = limit,
      heap_listp = base + 4,
      segregatedList = fl,
      tag_writes = []\<rparr>"

text \<open>An empty arena of one mebibyte starting at address 4096, before \<^verbatim>\<open>mm_init\<close>, and
  the heap as \<^verbatim>\<open>mm_init\<close> leaves it: one free block of 128 words between the fences.\<close>

definition fresh_arena :: heap where
  "fresh_arena = \<lparr>mem = (\<lambda>_. 0), mem_brk = 4096, mem_max_addr = 1052672, heap_listp = 0,
     segregatedList = (\<lambda>_. []), tag_writes = []\<rparr>"

definition init_heap :: heap where
  "init_heap = mk_heap 4104 1052672 [(128, False)] ((\<lambda>_. [])(0 := [4108]))"

text \<open>The heap after ten allocations, one of 16 words and nine of 8 words, of which the
  first, third, fifth, seventh and ninth have been freed in this order: the first free
  list holds four blocks of 8 words, then the block of 16 words, then the rest of the
  initial chunk.\<close>

definition five_free_blocks :: "(nat \<times> bool) list" where
  "five_free_blocks =
     [(16, False), (8, True), (8, False), (8, True), (8, False), (8, True), (8, False),
      (8, True), (8, False), (8, True), (40, False)]"

definition five_free_heap :: heap where
  "five_free_heap = mk_heap 4104 1052672 five_free_blocks
     ((\<lambda>_. [])(0 := [4396, 4332, 4268, 4204, 4108, 4460]))"

text \<open>A heap whose only block has just been marked free and is in no free list yet, and
  a heap of three blocks of which the middle one has just been marked free.\<close>

definition just_freed_heap :: heap where
  "just_freed_heap = mk_heap 4104 1052672 [(128, False)] (\<lambda>_. [])"

definition three_free_heap :: heap where
  "three_free_heap = mk_heap 4104 1052672 [(16, False), (8, False), (104, False)]
     ((\<lambda>_. [])(0 := [4108, 4204]))"

text \<open>A heap whose arena is exhausted: one allocated block of 128 words, no free block,
  and the limit of the arena at the end of the heap.\<close>

definition full_heap :: heap where
  "full_heap = mk_heap 4104 4624 [(128, True)] (\<lambda>_. [])"

text \<open>The heap after \<^verbatim>\<open>mm_init\<close> and an allocation of 24 bytes, and the heap after
  \<^verbatim>\<open>mm_init\<close> and an allocation of 496 bytes, which takes the whole initial chunk.\<close>

definition one_used_heap :: heap where
  "one_used_heap = mk_heap 4104 1052672 [(8, True), (120, False)] ((\<lambda>_. [])(0 := [4140]))"

definition filled_heap :: heap where
  "filled_heap = mk_heap 4104 1052672 [(128, True)] (\<lambda>_. [])"



section \<open>Bytes, words and tags in the store\<close>

lemma decode_encode [simp]: "decode_tag (encode_tag t) = t"
proof -
  have 1: "bit (push_bit 1 (ucast (tsize t) :: 32 word) OR of_bool (inuse t)) 0 = inuse t"
    unfolding bit_or_iff bit_push_bit_iff by (simp add: bit_simps)
  have 2: "(ucast (drop_bit 1 (push_bit 1 (ucast (tsize t) :: 32 word) OR of_bool (inuse t))) :: 31 word)
             = tsize t"
    apply (rule bit_word_eqI)
    unfolding bit_ucast_iff bit_drop_bit_eq bit_or_iff bit_push_bit_iff
    apply (auto simp add: bit_simps dest: bit_imp_le_length)
    done
  show ?thesis
    unfolding decode_tag_def encode_tag_def using 1 2 by simp
qed

lemma encode_decode [simp]: "encode_tag (decode_tag w) = w"
proof -
  have "push_bit 1 (ucast (ucast (drop_bit 1 w) :: 31 word)) OR of_bool (bit w 0) = w"
    apply (rule bit_word_eqI)
    unfolding bit_ucast_iff bit_drop_bit_eq bit_or_iff bit_push_bit_iff
    subgoal for n
      by (cases n) (auto simp add: bit_simps dest: bit_imp_le_length)
    done
  then show ?thesis
    unfolding decode_tag_def encode_tag_def boundary_tag.simps .
qed

lemma bytes_recombine:
  "ucast (ucast v :: 8 word) OR push_bit 8 (ucast (ucast (drop_bit 8 v) :: 8 word))
     OR push_bit 16 (ucast (ucast (drop_bit 16 v) :: 8 word))
     OR push_bit 24 (ucast (ucast (drop_bit 24 v) :: 8 word)) = (v :: 32 word)"
  apply (rule bit_word_eqI)
  apply (simp add: bit_simps)
  subgoal for n
    by (cases "n < 8"; cases "n < 16"; cases "n < 24"; simp; linarith)
  done

lemma load32_store32_same [simp]: "load32 (store32 m a v) a = v"
proof -
  have d: "a + 1 \<noteq> a" "a + 2 \<noteq> a" "a + 3 \<noteq> a" "a + 2 \<noteq> a + 1" "a + 3 \<noteq> a + 1" "a + 3 \<noteq> a + 2"
    by simp_all
  have "load32 (store32 m a v) a =
      ucast (ucast v :: 8 word) OR push_bit 8 (ucast (ucast (drop_bit 8 v) :: 8 word))
      OR push_bit 16 (ucast (ucast (drop_bit 16 v) :: 8 word))
      OR push_bit 24 (ucast (ucast (drop_bit 24 v) :: 8 word))"
    unfolding load32_def store32_def using d by simp
  then show ?thesis
    by (simp only: bytes_recombine)
qed

lemma uint_neg64: "uint (- d :: 64 word) = (if d = 0 then 0 else 2 ^ 64 - uint d)"
proof (cases "d = 0")
  case True then show ?thesis by simp
next
  case False
  then have "0 < uint d" by (simp add: word_neq_0_conv word_less_def)
  moreover have "uint d < 2 ^ 64" using uint_lt2p [of d] by simp
  ultimately have "- uint d mod 2 ^ 64 = 2 ^ 64 - uint d"
    by (smt (verit) mod_add_self2 mod_pos_pos_trivial)
  then show ?thesis using False by (simp add: uint_word_ariths)
qed

lemma far_plus:
  fixes d k :: "64 word"
  assumes "4 \<le> d" "4 \<le> - d" "k \<le> 3"
  shows "4 \<le> d + k"
proof -
  have d: "4 \<le> uint d" "uint d \<le> 2 ^ 64 - 4"
    using assms(1,2) by (auto simp: word_le_def uint_neg64 split: if_splits)
  have k: "uint k \<le> 3"
    using assms(3) by (auto simp: word_le_def)
  have "uint (d + k) = uint d + uint k"
    using d k by (simp add: uint_word_ariths mod_pos_pos_trivial)
  moreover have "0 \<le> uint k" by simp
  ultimately have "4 \<le> uint (d + k)" using d by linarith
  then show ?thesis by (simp add: word_le_def)
qed

lemma store32_byte_other: "4 \<le> x - a \<Longrightarrow> store32 m a v x = m x"
proof -
  assume h: "4 \<le> x - a"
  have "x - a \<noteq> 0" "x - a \<noteq> 1" "x - a \<noteq> 2" "x - a \<noteq> 3"
    using h by (auto simp: word_le_nat_alt)
  then have "x \<noteq> a" "x \<noteq> a + 1" "x \<noteq> a + 2" "x \<noteq> a + 3"
    by auto
  then show ?thesis
    unfolding store32_def by simp
qed

lemma far_bytes:
  fixes a b :: addr
  assumes "4 \<le> b - a" "4 \<le> a - b"
  shows "4 \<le> b + 1 - a" "4 \<le> b + 2 - a" "4 \<le> b + 3 - a"
proof -
  have n: "4 \<le> - (b - a)" using assms(2) by simp
  have "4 \<le> (b - a) + 1" "4 \<le> (b - a) + 2" "4 \<le> (b - a) + 3"
    using far_plus [OF assms(1) n] by (simp_all add: word_le_nat_alt)
  then show "4 \<le> b + 1 - a" "4 \<le> b + 2 - a" "4 \<le> b + 3 - a"
    by (simp_all add: algebra_simps)
qed

lemma load32_store32_other:
  "4 \<le> b - a \<Longrightarrow> 4 \<le> a - b \<Longrightarrow> load32 (store32 m a v) b = load32 m b"
  unfolding load32_def by (simp add: store32_byte_other far_bytes)

lemma store32_store32_same [simp]: "store32 (store32 m a v) a w = store32 m a w"
  unfolding store32_def by (rule ext) simp

lemma load_tag_store_tag_same [simp]: "load_tag (store_tag m a t) a = t"
  unfolding load_tag_def store_tag_def by simp

lemma load_tag_store_tag_other:
  "4 \<le> b - a \<Longrightarrow> 4 \<le> a - b \<Longrightarrow> load_tag (store_tag m a t) b = load_tag m b"
  unfolding load_tag_def store_tag_def by (simp add: load32_store32_other)

lemma store_tag_store_tag_same [simp]: "store_tag (store_tag m a t) a t' = store_tag m a t'"
  unfolding store_tag_def by simp

lemma tag_updates [simp]:
  "(t :: boundary_tag)\<lparr>inuse := a, tsize := b\<rparr> = \<lparr>inuse = a, tsize = b\<rparr>"
  by (cases t) simp

lemma set_header_and_footer_eq:
  "set_header_and_footer blk sz iu s =
     s\<lparr>mem := store_tag (store_tag (mem s) blk \<lparr>inuse = bit iu 0, tsize = ucast sz\<rparr>)
                 (blk + WSIZE * scast (ucast sz :: 31 word) - 4)
                 \<lparr>inuse = bit iu 0, tsize = ucast sz\<rparr>,
        tag_writes := Header_and_footer blk \<lparr>inuse = bit iu 0, tsize = ucast sz\<rparr>
                      # tag_writes s\<rparr>"
  unfolding set_header_and_footer_def Let_def get_footer_def
  by simp

section \<open>Evaluating the allocator on a given heap\<close>

lemma CHUNKSIZE_128: "CHUNKSIZE = 128"
  by (simp add: CHUNKSIZE_def)

lemma remove1_fun_upd:
  "(\<lambda>i. remove1 e ((f(k := xs)) i)) = (\<lambda>i. remove1 e (f i))(k := remove1 e xs)"
  by (rule ext) simp

lemmas eval_defs = mm_init_def mm_malloc_def mm_free_def mm_realloc_def realloc_fallback_def
  malloc_awords_def realloc_awords_def align_def max_sz_def ALIGNMENT_def
  place_def find_fit_def store_direct_def memcpy_def
  mem_sbrk_def extend_heap_def mark_block_free_def mark_block_used_def
  set_header_and_footer_eq coalesce_def next_blk_def prev_blk_def prev_blk_footer_def
  blk_free_def blk_size_def fits_def
  segregatedListAdd_def list_push_front_def list_remove_def WSIZE_def CHUNKSIZE_128
  NUM_SIZE_CLASSES_def MIN_BLOCK_SIZE_WORDS_def FENCE_def Let_def load_tag_store_tag_other
  upt_rec remove1_fun_upd

lemmas mk_heap_defs = mk_heap_def word_at_def tag_def total_words_def


section \<open>Word offsets and the size field\<close>

lemma word_at_0 [simp]: "word_at base 0 = base"
  by (simp add: word_at_def)

lemma word_at_add: "word_at base k + 4 * of_nat n = word_at base (k + n)"
  by (simp add: word_at_def algebra_simps)

lemma word_at_sub: "n \<le> k \<Longrightarrow> word_at base k - 4 * of_nat n = word_at base (k - n)"
  by (simp add: word_at_def algebra_simps of_nat_diff)

lemma word_at_minus_4: "1 \<le> k \<Longrightarrow> word_at base k - 4 = word_at base (k - 1)"
  using word_at_sub [of 1 k base] by simp

lemma word_at_plus_4: "word_at base k + 4 = word_at base (k + 1)"
  using word_at_add [of base k 1] by simp

lemma unat_4_of_nat:
  assumes "d < 2 ^ 62"
  shows "unat (4 * of_nat d :: 64 word) = 4 * d"
proof -
  have "(4 * of_nat d :: 64 word) = of_nat (4 * d)" by simp
  moreover have "4 * d < 2 ^ 64" using assms by simp
  ultimately show ?thesis
    by (simp add: unat_of_nat del: of_nat_mult of_nat_numeral)
qed

lemma word_at_diff_ge:
  assumes "j < k" "k < 2 ^ 62"
  shows "4 \<le> word_at base k - word_at base j" "4 \<le> word_at base j - word_at base k"
proof -
  let ?d = "k - j"
  have d: "0 < ?d" "?d < 2 ^ 62" using assms by simp_all
  have e: "word_at base k - word_at base j = 4 * of_nat ?d"
    using assms by (simp add: word_at_def algebra_simps of_nat_diff)
  have u: "unat (4 * of_nat ?d :: 64 word) = 4 * ?d"
    by (rule unat_4_of_nat) (rule d)
  show "4 \<le> word_at base k - word_at base j"
    unfolding e using u d by (simp add: word_le_nat_alt)
  have "word_at base j - word_at base k = - (4 * of_nat ?d)"
    using e by (metis minus_diff_eq)
  moreover have "uint (4 * of_nat ?d :: 64 word) = 4 * int ?d"
    using u by (metis of_nat_mult of_nat_numeral uint_nat)
  moreover have "(4 * of_nat ?d :: 64 word) \<noteq> 0"
    using u d by (metis mult_eq_0_iff not_less_zero unat_0 zero_neq_numeral less_numeral_extra(3))
  ultimately have "uint (word_at base j - word_at base k) = 2 ^ 64 - 4 * int ?d"
    by (simp add: uint_neg64)
  moreover have "4 * int ?d \<le> 2 ^ 64 - 4" using d by simp
  ultimately show "4 \<le> word_at base j - word_at base k"
    by (simp add: word_le_def)
qed

lemma word_at_far:
  assumes "j \<noteq> k" "j < 2 ^ 62" "k < 2 ^ 62"
  shows "4 \<le> word_at base k - word_at base j"
  using assms word_at_diff_ge [of j k base] word_at_diff_ge [of k j base]
  by (cases "j < k") simp_all

lemma load_tag_word_at:
  assumes "j < 2 ^ 62" "k < 2 ^ 62"
  shows "load_tag (store_tag m (word_at base j) t) (word_at base k) =
           (if j = k then t else load_tag m (word_at base k))"
  using assms word_at_far [of j k base] word_at_far [of k j base]
  by (simp add: load_tag_store_tag_other)

lemma word_at_inj:
  assumes "j < 2 ^ 62" "k < 2 ^ 62" "word_at base j = word_at base k"
  shows "j = k"
proof (rule ccontr)
  assume "j \<noteq> k"
  then have "4 \<le> word_at base k - word_at base j"
    by (rule word_at_far) (rule assms)+
  then have "(4 :: 64 word) \<le> 0" unfolding assms(3) by simp
  then show False by simp
qed

lemma scast_size_field:
  assumes "n < 2 ^ 30"
  shows "(scast (of_nat n :: 31 word) :: 64 word) = of_nat n"
proof -
  have "signed_take_bit 30 (int n) = int n"
    using assms by (simp add: signed_take_bit_int_eq_self)
  then show ?thesis
    by (simp add: signed_of_nat)
qed

lemma ucast_size_field:
  "(ucast (ucast (x :: 64 word) :: 32 word) :: 31 word) = ucast x"
  by (rule bit_word_eqI) (auto simp: bit_simps)

lemma ucast_of_nat_31: "(ucast (of_nat n :: 64 word) :: 31 word) = of_nat n"
  by (simp add: unsigned_of_nat word_of_nat_eq_iff take_bit_take_bit)

lemma ucast_of_nat_32: "(ucast (of_nat n :: 64 word) :: 32 word) = of_nat n"
  by (simp add: unsigned_of_nat word_of_nat_eq_iff take_bit_take_bit)

lemma size_field_eq_0:
  assumes "n < 2 ^ 30"
  shows "((of_nat n :: 31 word) = 0) = (n = 0)"
proof -
  have "n < 2 ^ 31" using assms by simp
  then have "take_bit 31 n = n" by (simp add: take_bit_nat_eq_self)
  then show ?thesis
    using word_of_nat_eq_iff [where 'a = 31, of n 0] by simp
qed

lemma size_field_inj:
  assumes "n < 2 ^ 30" "n' < 2 ^ 30"
  shows "((of_nat n :: 31 word) = of_nat n') = (n = n')"
proof -
  have "n < 2 ^ 31" "n' < 2 ^ 31" using assms by simp_all
  then have "take_bit 31 n = n" "take_bit 31 n' = n'" by (simp_all add: take_bit_nat_eq_self)
  then show ?thesis
    using word_of_nat_eq_iff [where 'a = 31, of n n'] by simp
qed

lemma unat_of_nat_64: "a < 2 ^ 64 \<Longrightarrow> unat (of_nat a :: 64 word) = a"
  by (simp add: unat_of_nat)

lemma of_nat_le_64:
  assumes "a < 2 ^ 64" "b < 2 ^ 64"
  shows "(of_nat a \<le> (of_nat b :: 64 word)) = (a \<le> b)"
  using assms by (simp add: word_le_nat_alt unat_of_nat_64)

lemma of_nat_less_64:
  assumes "a < 2 ^ 64" "b < 2 ^ 64"
  shows "(of_nat a < (of_nat b :: 64 word)) = (a < b)"
  using assms by (simp add: word_less_nat_alt unat_of_nat_64)

lemma of_nat_eq_64:
  assumes "a < 2 ^ 64" "b < 2 ^ 64"
  shows "(of_nat a = (of_nat b :: 64 word)) = (a = b)"
  using assms by (metis unat_of_nat_64)

lemma of_nat_sub_64: "a \<le> c \<Longrightarrow> (of_nat c :: 64 word) - of_nat a = of_nat (c - a)"
  by (simp add: of_nat_diff)

lemma unat_word_at:
  assumes "unat base + 4 * k < 2 ^ 64"
  shows "unat (word_at base k) = unat base + 4 * k"
proof -
  have "k < 2 ^ 62" using assms by simp
  then have u: "unat (4 * of_nat k :: 64 word) = 4 * k"
    by (rule unat_4_of_nat)
  then have "unat base + unat (4 * of_nat k :: 64 word) < 2 ^ 64"
    using assms by simp
  then have "unat (base + 4 * of_nat k) = unat base + unat (4 * of_nat k :: 64 word)"
    by (simp add: unat_plus_if')
  then show ?thesis
    using u by (simp add: word_at_def)
qed

section \<open>Blocks in the store\<close>

lemma put_block_fields [simp]:
  "mem_brk (put_block base k n u s) = mem_brk s"
  "mem_max_addr (put_block base k n u s) = mem_max_addr s"
  "heap_listp (put_block base k n u s) = heap_listp s"
  "segregatedList (put_block base k n u s) = segregatedList s"
  "tag_writes (put_block base k n u s) = Header_and_footer (word_at base k) (tag u n) # tag_writes s"
  by (simp_all add: put_block_def)

lemma set_header_and_footer_put:
  assumes "n < 2 ^ 30" "1 \<le> k + n"
  shows "set_header_and_footer (word_at base k) (ucast (of_nat n :: size_t)) iu s =
           put_block base k n (bit iu 0) s"
proof -
  have "(ucast (ucast (of_nat n :: size_t) :: c_int) :: 31 word) = of_nat n"
    by (simp only: ucast_size_field ucast_of_nat_31)
  moreover have "word_at base k + WSIZE * of_nat n - 4 = word_at base (k + n - 1)"
    using assms(2) by (simp add: WSIZE_def word_at_add word_at_minus_4)
  ultimately show ?thesis
    using assms(1)
    by (simp add: set_header_and_footer_eq put_block_def tag_def scast_size_field)
qed

lemma mark_block_used_put:
  "n < 2 ^ 30 \<Longrightarrow> 1 \<le> k + n \<Longrightarrow>
   mark_block_used (word_at base k) (ucast (of_nat n :: size_t)) s = put_block base k n True s"
  by (simp add: mark_block_used_def set_header_and_footer_put)

lemma mark_block_free_put:
  "n < 2 ^ 30 \<Longrightarrow> 1 \<le> k + n \<Longrightarrow>
   mark_block_free (word_at base k) (ucast (of_nat n :: size_t)) s = put_block base k n False s"
  by (simp add: mark_block_free_def set_header_and_footer_put)

lemma load_tag_put_block:
  assumes "i < 2 ^ 62" "k < 2 ^ 62" "k + n - 1 < 2 ^ 62"
  shows "load_tag (mem (put_block base k n u s)) (word_at base i) =
           (if i = k \<or> i = k + n - 1 then tag u n else load_tag (mem s) (word_at base i))"
  using assms by (simp add: put_block_def load_tag_word_at)

lemma total_Nil [simp]: "total_words [] = 0"
  by (simp add: total_words_def)

lemma total_Cons [simp]: "total_words (b # bs) = fst b + total_words bs"
  by (simp add: total_words_def)

lemma total_append [simp]: "total_words (xs @ ys) = total_words xs + total_words ys"
  by (simp add: total_words_def)

lemma blocks_at_append:
  "blocks_at m base k (xs @ ys) =
     (blocks_at m base k xs \<and> blocks_at m base (k + total_words xs) ys)"
  by (induction xs arbitrary: k) (auto simp: add.assoc)

lemma blocks_at_cong:
  assumes "list_all (\<lambda>(n, u). 1 \<le> n) bs"
    and "\<And>i. j \<le> i \<Longrightarrow> i < j + total_words bs \<Longrightarrow>
           load_tag m' (word_at base i) = load_tag m (word_at base i)"
  shows "blocks_at m' base j bs = blocks_at m base j bs"
  using assms
proof (induction bs arbitrary: j)
  case Nil
  then show ?case by simp
next
  case (Cons b bs)
  obtain n u where b: "b = (n, u)" by (cases b)
  have n: "1 \<le> n" using Cons.prems(1) b by simp
  have "blocks_at m' base (j + n) bs = blocks_at m base (j + n) bs"
  proof (rule Cons.IH)
    show "list_all (\<lambda>(n, u). 1 \<le> n) bs" using Cons.prems(1) by simp
    show "load_tag m' (word_at base i) = load_tag m (word_at base i)"
      if "j + n \<le> i" "i < j + n + total_words bs" for i
      using that Cons.prems(2) [of i] b by simp
  qed
  moreover have "load_tag m' (word_at base j) = load_tag m (word_at base j)"
    using Cons.prems(2) [of j] b n by simp
  moreover have "load_tag m' (word_at base (j + n - 1)) = load_tag m (word_at base (j + n - 1))"
    using Cons.prems(2) [of "j + n - 1"] b n by simp
  ultimately show ?case using b by simp
qed

lemma list_all_min_size:
  "list_all (\<lambda>(n, u). 8 \<le> n) bs \<Longrightarrow> list_all (\<lambda>(n, u). 1 \<le> (n :: nat)) bs"
  by (induction bs) auto

text \<open>Replacing a run of blocks by another run of the same total_words size.\<close>

lemma layout_replace:
  assumes ok: "layout_ok s (xs @ mid @ ys)"
    and tot: "total_words mid' = total_words mid"
    and min: "list_all (\<lambda>(n, u). 8 \<le> n) mid'"
    and same: "mem_brk s' = mem_brk s" "mem_max_addr s' = mem_max_addr s"
              "heap_listp s' = heap_listp s"
    and frame: "\<And>i. i \<le> total_words (xs @ mid @ ys) + 1 \<Longrightarrow>
                 i < 1 + total_words xs \<or> 1 + total_words xs + total_words mid \<le> i \<Longrightarrow>
                 load_tag (mem s') (word_at (heap_listp s - 4) i)
                   = load_tag (mem s) (word_at (heap_listp s - 4) i)"
    and new: "blocks_at (mem s') (heap_listp s - 4) (1 + total_words xs) mid'"
  shows "layout_ok s' (xs @ mid' @ ys)"
proof -
  let ?base = "heap_listp s - 4"
  have l: "list_all (\<lambda>(n, u). 8 \<le> n) xs" "list_all (\<lambda>(n, u). 8 \<le> n) ys"
    and b: "blocks_at (mem s) ?base 1 xs"
           "blocks_at (mem s) ?base (1 + total_words xs + total_words mid) ys"
    and f: "load_tag (mem s) ?base = FENCE"
           "load_tag (mem s) (word_at ?base (1 + total_words (xs @ mid @ ys))) = FENCE"
    using ok by (simp_all add: layout_ok_def Let_def blocks_at_append add.assoc)
  have l1: "list_all (\<lambda>(n, u). 1 \<le> n) xs" "list_all (\<lambda>(n, u). 1 \<le> n) ys"
    by (rule list_all_min_size, rule l)+
  have "blocks_at (mem s') ?base 1 xs = blocks_at (mem s) ?base 1 xs"
    by (rule blocks_at_cong [OF l1(1)]) (use frame in simp)
  moreover have "blocks_at (mem s') ?base (1 + total_words xs + total_words mid) ys
                   = blocks_at (mem s) ?base (1 + total_words xs + total_words mid) ys"
    by (rule blocks_at_cong [OF l1(2)]) (use frame in simp)
  moreover have "load_tag (mem s') ?base = load_tag (mem s) ?base"
    using frame [of 0] by simp
  moreover have "load_tag (mem s') (word_at ?base (1 + total_words (xs @ mid @ ys)))
                   = load_tag (mem s) (word_at ?base (1 + total_words (xs @ mid @ ys)))"
    using frame [of "1 + total_words (xs @ mid @ ys)"] by simp
  ultimately show ?thesis
    using ok tot min same new l b f
    by (simp add: layout_ok_def Let_def blocks_at_append add.assoc)
qed

lemma layout_bound:
  assumes "layout_ok s bs"
  shows "total_words bs + 2 \<le> 2 ^ 30"
proof -
  have "unat (heap_listp s - 4) + 4 * (total_words bs + 2) \<le> unat (heap_listp s - 4) + 2 ^ 32"
    using assms by (simp add: layout_ok_def Let_def)
  then show ?thesis by simp
qed

lemma layout_base:
  assumes "layout_ok s bs"
  shows "heap_listp s = word_at (heap_listp s - 4) 1"
  by (simp add: word_at_def)

lemma layout_unat_base:
  assumes "layout_ok s bs"
  shows "unat (heap_listp s - 4) + 4 = unat (heap_listp s)"
proof -
  have "4 \<le> unat (heap_listp s)" using assms by (simp add: layout_ok_def Let_def)
  then have "(4 :: 64 word) \<le> heap_listp s" by (simp add: word_le_nat_alt)
  then have "unat (heap_listp s - 4) = unat (heap_listp s) - unat (4 :: 64 word)"
    by (rule unat_sub)
  then show ?thesis using \<open>4 \<le> unat (heap_listp s)\<close> by simp
qed

lemma layout_unat_word_at:
  assumes "layout_ok s bs" "i \<le> total_words bs + 2"
  shows "unat (word_at (heap_listp s - 4) i) = unat (heap_listp s - 4) + 4 * i"
proof -
  have "unat (heap_listp s - 4) + 4 * (total_words bs + 2) = unat (mem_brk s)"
    using assms(1) by (simp add: layout_ok_def Let_def)
  moreover have "unat (mem_brk s) < 2 ^ 64"
    using unsigned_less [of "mem_brk s", where 'a = nat] by simp
  ultimately have "unat (heap_listp s - 4) + 4 * i < 2 ^ 64"
    using assms(2) by simp
  then show ?thesis by (rule unat_word_at)
qed

lemma layout_brk:
  assumes "layout_ok s bs"
  shows "mem_brk s = word_at (heap_listp s - 4) (total_words bs + 2)"
proof -
  have "unat (word_at (heap_listp s - 4) (total_words bs + 2)) = unat (mem_brk s)"
    using assms layout_unat_word_at [OF assms, of "total_words bs + 2"]
    by (simp add: layout_ok_def Let_def)
  then show ?thesis by (metis word_unat_eq_iff)
qed

lemma layout_word_at_nonzero:
  assumes "layout_ok s bs" "1 \<le> i" "i \<le> total_words bs + 2"
  shows "word_at (heap_listp s - 4) i \<noteq> 0"
proof
  assume "word_at (heap_listp s - 4) i = 0"
  then have "unat (word_at (heap_listp s - 4) i) = 0" by simp
  then show False
    using layout_unat_word_at [OF assms(1,3)] assms(2) by simp
qed

text \<open>The tags of a block of the layout and of its neighbours.\<close>

lemma layout_block:
  assumes "layout_ok s (xs @ (n, u) # ys)"
  shows "load_tag (mem s) (word_at (heap_listp s - 4) (1 + total_words xs)) = tag u n"
    and "load_tag (mem s) (word_at (heap_listp s - 4) (total_words xs + n)) = tag u n"
    and "8 \<le> n" and "n < 2 ^ 30" and "1 + total_words xs + n < 2 ^ 30"
proof -
  have b: "blocks_at (mem s) (heap_listp s - 4) (1 + total_words xs) ((n, u) # ys)"
    using assms by (simp add: layout_ok_def Let_def blocks_at_append)
  show "load_tag (mem s) (word_at (heap_listp s - 4) (1 + total_words xs)) = tag u n"
    using b by simp
  show "8 \<le> n" using assms by (simp add: layout_ok_def Let_def)
  then show "load_tag (mem s) (word_at (heap_listp s - 4) (total_words xs + n)) = tag u n"
    using b by simp
  show "1 + total_words xs + n < 2 ^ 30"
    using layout_bound [OF assms] by simp
  then show "n < 2 ^ 30" by simp
qed

lemma layout_prev_footer:
  assumes "layout_ok s (xs @ ys)"
  shows "load_tag (mem s) (word_at (heap_listp s - 4) (total_words xs)) =
           (if xs = [] then FENCE else tag (snd (last xs)) (fst (last xs)))"
proof (cases xs rule: rev_cases)
  case Nil
  then show ?thesis using assms by (simp add: layout_ok_def Let_def)
next
  case (snoc zs b)
  obtain n u where b: "b = (n, u)" by (cases b)
  have "layout_ok s (zs @ (n, u) # ys)" using assms snoc b by simp
  from layout_block(2) [OF this] show ?thesis using snoc b by simp
qed

lemma layout_next_header:
  assumes "layout_ok s (xs @ ys)"
  shows "load_tag (mem s) (word_at (heap_listp s - 4) (1 + total_words xs)) =
           (if ys = [] then FENCE else tag (snd (hd ys)) (fst (hd ys)))"
proof (cases ys)
  case Nil
  then show ?thesis using assms by (simp add: layout_ok_def Let_def)
next
  case (Cons b zs)
  obtain n u where b: "b = (n, u)" by (cases b)
  have "layout_ok s (xs @ (n, u) # zs)" using assms Cons b by simp
  from layout_block(1) [OF this] show ?thesis using Cons b by simp
qed

lemma tag_fields [simp]: "inuse (tag u n) = u" "tsize (tag u n) = of_nat n"
  by (simp_all add: tag_def)

lemma FENCE_fields [simp]: "inuse FENCE = True" "tsize FENCE = 0"
  by (simp_all add: FENCE_def)

lemma FENCE_tag: "FENCE = tag True 0"
  by (simp add: FENCE_def tag_def)

section \<open>The free lists\<close>

lemma list_ops_fields [simp]:
  "mem (list_push_front i e s) = mem s"
  "mem_brk (list_push_front i e s) = mem_brk s"
  "mem_max_addr (list_push_front i e s) = mem_max_addr s"
  "heap_listp (list_push_front i e s) = heap_listp s"
  "tag_writes (list_push_front i e s) = tag_writes s"
  by (simp_all add: list_push_front_def)

lemma in_all_free: "e \<in> set (all_free s) \<longleftrightarrow> (\<exists>i < NUM_SIZE_CLASSES. e \<in> set (segregatedList s i))"
  by (auto simp: all_free_def)

lemma list_remove_eq:
  "list_remove e s =
     (if e \<in> set (all_free s)
      then Some (s\<lparr>segregatedList := (\<lambda>i. remove1 e (segregatedList s i))\<rparr>) else None)"
  unfolding list_remove_def in_all_free
  by (auto simp: list_ex_iff)

lemma concat_remove1:
  assumes "distinct (concat (map L js))"
  shows "distinct (concat (map (\<lambda>i. remove1 e (L i)) js))
       \<and> set (concat (map (\<lambda>i. remove1 e (L i)) js)) = set (concat (map L js)) - {e}"
  using assms
proof (induction js)
  case Nil
  then show ?case by simp
next
  case (Cons j js)
  then have ih: "distinct (concat (map (\<lambda>i. remove1 e (L i)) js))"
    "set (concat (map (\<lambda>i. remove1 e (L i)) js)) = set (concat (map L js)) - {e}"
    and d: "distinct (L j)" "set (L j) \<inter> set (concat (map L js)) = {}"
    by auto
  have "set (remove1 e (L j)) = set (L j) - {e}" using d(1) by simp
  then show ?case using ih d by auto
qed

lemma lists_ok_remove:
  assumes "lists_ok s F" "e \<in> F"
  shows "list_remove e s = Some (s\<lparr>segregatedList := (\<lambda>i. remove1 e (segregatedList s i))\<rparr>)"
    and "lists_ok (s\<lparr>segregatedList := (\<lambda>i. remove1 e (segregatedList s i))\<rparr>) (F - {e})"
proof -
  show "list_remove e s = Some (s\<lparr>segregatedList := (\<lambda>i. remove1 e (segregatedList s i))\<rparr>)"
    using assms by (simp add: list_remove_eq lists_ok_def)
  show "lists_ok (s\<lparr>segregatedList := (\<lambda>i. remove1 e (segregatedList s i))\<rparr>) (F - {e})"
    using assms(1) concat_remove1 [of "segregatedList s" "[0..<NUM_SIZE_CLASSES]" e]
    by (simp add: lists_ok_def all_free_def)
qed

lemma map_upd_other: "i \<notin> set js \<Longrightarrow> map (L(i := x)) js = map L js"
  by (induction js) auto

lemma concat_push:
  assumes "distinct js" "i \<in> set js"
  shows "set (concat (map (L(i := e # L i)) js)) = insert e (set (concat (map L js)))
       \<and> (distinct (concat (map (L(i := e # L i)) js))
           \<longleftrightarrow> e \<notin> set (concat (map L js)) \<and> distinct (concat (map L js)))"
  using assms
proof (induction js)
  case Nil
  then show ?case by simp
next
  case (Cons j js)
  show ?case
  proof (cases "i = j")
    case True
    then have "i \<notin> set js" using Cons.prems by simp
    then have m: "map (L(j := e # L j)) js = map L js"
      unfolding True by (rule map_upd_other)
    have "concat (map (L(j := e # L j)) (j # js)) = (e # L j) @ concat (map (L(j := e # L j)) js)"
      by simp
    also have "\<dots> = (e # L j) @ concat (map L js)" by (simp only: m)
    finally have eq: "concat (map (L(j := e # L j)) (j # js)) = (e # L j) @ concat (map L js)" .
    show ?thesis unfolding True by (simp only: eq) auto
  next
    case False
    then have "i \<in> set js" "distinct js" using Cons.prems by auto
    from Cons.IH [OF this(2,1)] False show ?thesis by auto
  qed
qed

lemma lists_ok_push:
  assumes "lists_ok s F" "e \<notin> F" "i < NUM_SIZE_CLASSES"
  shows "lists_ok (list_push_front i e s) (insert e F)"
  using assms concat_push [of "[0..<NUM_SIZE_CLASSES]" i "segregatedList s" e]
  by (simp add: lists_ok_def all_free_def list_push_front_def)

lemma size_class_less: "size_class x < NUM_SIZE_CLASSES"
  by (simp add: size_class_def NUM_SIZE_CLASSES_def)

lemma segregatedListAdd_eq:
  "segregatedListAdd bp s =
     (if bp = 0 then None
      else Some (list_push_front (size_class (ucast (blk_size s bp))) bp s))"
  by (simp add: segregatedListAdd_def size_class_def Let_def)

lemma segregatedListAdd_push:
  assumes "bp \<noteq> 0"
  shows "\<exists>i < NUM_SIZE_CLASSES. segregatedListAdd bp s = Some (list_push_front i bp s)"
  using assms size_class_less by (auto simp: segregatedListAdd_eq)

lemma lists_ok_add:
  assumes "lists_ok s F" "bp \<notin> F" "bp \<noteq> 0"
  obtains s' where "segregatedListAdd bp s = Some s'" "lists_ok s' (insert bp F)"
    "mem s' = mem s" "mem_brk s' = mem_brk s" "mem_max_addr s' = mem_max_addr s"
    "heap_listp s' = heap_listp s" "tag_writes s' = tag_writes s"
    "hd (segregatedList s' (size_class (ucast (blk_size s bp)))) = bp"
proof -
  let ?i = "size_class (ucast (blk_size s bp))"
  have i: "?i < NUM_SIZE_CLASSES" "segregatedListAdd bp s = Some (list_push_front ?i bp s)"
    using assms(3) by (simp_all add: size_class_less segregatedListAdd_eq)
  show ?thesis
    by (rule that [of "list_push_front ?i bp s"])
       (use i lists_ok_push [OF assms(1,2) i(1)] in \<open>simp_all add: list_push_front_def\<close>)
qed

lemma free_blocks_append:
  "free_blocks base k (xs @ ys) =
     free_blocks base k xs @ free_blocks base (k + total_words xs) ys"
  by (induction xs arbitrary: k) (auto simp: add.assoc)

lemma free_blocks_range:
  assumes "list_all (\<lambda>(n, u). 1 \<le> n) bs" "e \<in> set (free_blocks base k bs)"
  shows "\<exists>i. e = word_at base i \<and> k \<le> i \<and> i < k + total_words bs"
  using assms
proof (induction bs arbitrary: k)
  case Nil
  then show ?case by simp
next
  case (Cons b bs)
  obtain n u where b: "b = (n, u)" by (cases b)
  have n: "1 \<le> n" and l: "list_all (\<lambda>(n, u). 1 \<le> n) bs"
    using Cons.prems(1) b by simp_all
  from Cons.prems(2) b consider "e = word_at base k" | "e \<in> set (free_blocks base (k + n) bs)"
    by (auto split: if_splits)
  then show ?case
  proof cases
    case 1
    then show ?thesis using n b by auto
  next
    case 2
    from Cons.IH [OF l 2] obtain i where "e = word_at base i" "k + n \<le> i"
      "i < k + n + total_words bs" by blast
    then show ?thesis using b by auto
  qed
qed

lemma free_blocks_notin:
  assumes "list_all (\<lambda>(n, u). 1 \<le> n) bs" "k + total_words bs \<le> 2 ^ 62" "i < 2 ^ 62"
    and "i < k \<or> k + total_words bs \<le> i"
  shows "word_at base i \<notin> set (free_blocks base k bs)"
proof
  assume "word_at base i \<in> set (free_blocks base k bs)"
  from free_blocks_range [OF assms(1) this] obtain j
    where j: "word_at base i = word_at base j" "k \<le> j" "j < k + total_words bs" by blast
  have "j < 2 ^ 62" using j(3) assms(2) by simp
  from word_at_inj [OF assms(3) this j(1)] show False using j assms(4) by simp
qed

lemma layout_min:
  assumes "layout_ok s bs"
  shows "list_all (\<lambda>(n, u). 1 \<le> n) bs"
  by (rule list_all_min_size) (use assms in \<open>simp add: layout_ok_def Let_def\<close>)

lemma list_all_append_min:
  "list_all (\<lambda>(n, u). 1 \<le> (n :: nat)) (xs @ ys) \<Longrightarrow>
     list_all (\<lambda>(n, u). 1 \<le> n) xs \<and> list_all (\<lambda>(n, u). 1 \<le> n) ys"
  by simp

text \<open>The free blocks of a layout in which a run of blocks is replaced by another run of
  the same total size.\<close>

lemma free_blocks_replace:
  assumes "list_all (\<lambda>(n, u). 1 \<le> n) (xs @ mid @ ys)"
    and "k + total_words (xs @ mid @ ys) \<le> 2 ^ 62"
    and "total_words mid' = total_words mid"
  shows "set (free_blocks base k (xs @ mid' @ ys)) =
           (set (free_blocks base k (xs @ mid @ ys))
              - set (free_blocks base (k + total_words xs) mid))
           \<union> set (free_blocks base (k + total_words xs) mid')"
proof -
  let ?X = "set (free_blocks base k xs)"
  let ?M = "set (free_blocks base (k + total_words xs) mid)"
  let ?Y = "set (free_blocks base (k + total_words xs + total_words mid) ys)"
  have l: "list_all (\<lambda>(n, u). 1 \<le> n) xs" "list_all (\<lambda>(n, u). 1 \<le> n) mid"
    "list_all (\<lambda>(n, u). 1 \<le> n) ys"
    using assms(1) by simp_all
  have "?X \<inter> ?M = {}"
  proof (rule ccontr)
    assume "?X \<inter> ?M \<noteq> {}"
    then obtain e where e: "e \<in> ?X" "e \<in> ?M" by blast
    from free_blocks_range [OF l(1) e(1)] obtain i where
      i: "e = word_at base i" "k \<le> i" "i < k + total_words xs" by blast
    have "word_at base i \<notin> ?M"
      by (rule free_blocks_notin [OF l(2)]) (use i assms(2) in simp_all)
    then show False using e(2) i(1) by simp
  qed
  moreover have "?Y \<inter> ?M = {}"
  proof (rule ccontr)
    assume "?Y \<inter> ?M \<noteq> {}"
    then obtain e where e: "e \<in> ?Y" "e \<in> ?M" by blast
    from free_blocks_range [OF l(3) e(1)] obtain i where
      i: "e = word_at base i" "k + total_words xs + total_words mid \<le> i"
         "i < k + total_words xs + total_words mid + total_words ys" by blast
    have "word_at base i \<notin> ?M"
      by (rule free_blocks_notin [OF l(2)]) (use i assms(2) in simp_all)
    then show False using e(2) i(1) by simp
  qed
  ultimately show ?thesis
    using assms(3) by (auto simp: free_blocks_append add.assoc)
qed

lemma layout_ok_cong:
  assumes "layout_ok s bs" "mem s' = mem s" "mem_brk s' = mem_brk s"
    "mem_max_addr s' = mem_max_addr s" "heap_listp s' = heap_listp s"
  shows "layout_ok s' bs"
  using assms by (simp add: layout_ok_def)

lemma layout_put_block:
  assumes ok: "layout_ok s (xs @ mid @ ys)"
    and tot: "total_words mid = n" and min: "8 \<le> n"
  shows "layout_ok (put_block (heap_listp s - 4) (1 + total_words xs) n u s)
           (xs @ (n, u) # ys)"
proof -
  let ?base = "heap_listp s - 4"
  let ?s' = "put_block ?base (1 + total_words xs) n u s"
  have bound: "total_words (xs @ mid @ ys) + 2 \<le> 2 ^ 30"
    by (rule layout_bound [OF ok])
  have lt: "i < 2 ^ 62" if "i \<le> total_words (xs @ mid @ ys) + 1" for i :: nat
  proof -
    have "i < 2 ^ 30" using that bound by simp
    also have "(2 :: nat) ^ 30 < 2 ^ 62" by simp
    finally show ?thesis .
  qed
  have tag: "load_tag (mem ?s') (word_at ?base i) =
      (if i = 1 + total_words xs \<or> i = total_words xs + n then tag u n
       else load_tag (mem s) (word_at ?base i))"
    if "i \<le> total_words (xs @ mid @ ys) + 1" for i
  proof -
    have "load_tag (mem ?s') (word_at ?base i) =
      (if i = 1 + total_words xs \<or> i = 1 + total_words xs + n - 1 then tag u n
       else load_tag (mem s) (word_at ?base i))"
      by (rule load_tag_put_block) (use that tot lt [of i] lt [of "1 + total_words xs"]
          lt [of "1 + total_words xs + n - 1"] in simp_all)
    then show ?thesis by simp
  qed
  have "layout_ok ?s' (xs @ [(n, u)] @ ys)"
  proof (rule layout_replace [OF ok])
    show "total_words [(n, u)] = total_words mid" using tot by simp
    show "list_all (\<lambda>(n, u). 8 \<le> n) [(n, u)]" using min by simp
    show "load_tag (mem ?s') (word_at ?base i) = load_tag (mem s) (word_at ?base i)"
      if "i \<le> total_words (xs @ mid @ ys) + 1"
        "i < 1 + total_words xs \<or> 1 + total_words xs + total_words mid \<le> i" for i
      using tag [OF that(1)] that(2) tot min by auto
    show "blocks_at (mem ?s') ?base (1 + total_words xs) [(n, u)]"
      using tag [of "1 + total_words xs"] tag [of "total_words xs + n"] tot min by simp
  qed simp_all
  then show ?thesis by simp
qed

lemma layout_put_two:
  assumes ok: "layout_ok s (xs @ mid @ ys)"
    and tot: "total_words mid = a + b" and min: "8 \<le> a" "8 \<le> b"
  shows "layout_ok (put_block (heap_listp s - 4) (1 + total_words xs + a) b u2
                     (put_block (heap_listp s - 4) (1 + total_words xs) a u1 s))
           (xs @ (a, u1) # (b, u2) # ys)"
proof -
  let ?base = "heap_listp s - 4"
  let ?s1 = "put_block ?base (1 + total_words xs) a u1 s"
  let ?s' = "put_block ?base (1 + total_words xs + a) b u2 ?s1"
  have bound: "total_words (xs @ mid @ ys) + 2 \<le> 2 ^ 30"
    by (rule layout_bound [OF ok])
  have lt: "i < 2 ^ 62" if "i \<le> total_words (xs @ mid @ ys) + 1" for i :: nat
  proof -
    have "i < 2 ^ 30" using that bound by simp
    also have "(2 :: nat) ^ 30 < 2 ^ 62" by simp
    finally show ?thesis .
  qed
  have tag: "load_tag (mem ?s') (word_at ?base i) =
      (if i = 1 + total_words xs + a \<or> i = total_words xs + a + b then tag u2 b
       else if i = 1 + total_words xs \<or> i = total_words xs + a then tag u1 a
       else load_tag (mem s) (word_at ?base i))"
    if "i \<le> total_words (xs @ mid @ ys) + 1" for i
  proof -
    have "load_tag (mem ?s') (word_at ?base i) =
      (if i = 1 + total_words xs + a \<or> i = 1 + total_words xs + a + b - 1 then tag u2 b
       else load_tag (mem ?s1) (word_at ?base i))"
      by (rule load_tag_put_block) (use that tot lt [of i] lt [of "1 + total_words xs + a"]
          lt [of "1 + total_words xs + a + b - 1"] in simp_all)
    moreover have "load_tag (mem ?s1) (word_at ?base i) =
      (if i = 1 + total_words xs \<or> i = 1 + total_words xs + a - 1 then tag u1 a
       else load_tag (mem s) (word_at ?base i))"
      by (rule load_tag_put_block) (use that tot lt [of i] lt [of "1 + total_words xs"]
          lt [of "1 + total_words xs + a - 1"] in simp_all)
    ultimately show ?thesis by simp
  qed
  have "layout_ok ?s' (xs @ [(a, u1), (b, u2)] @ ys)"
  proof (rule layout_replace [OF ok])
    show "total_words [(a, u1), (b, u2)] = total_words mid" using tot by simp
    show "list_all (\<lambda>(n, u). 8 \<le> n) [(a, u1), (b, u2)]" using min by simp
    show "load_tag (mem ?s') (word_at ?base i) = load_tag (mem s) (word_at ?base i)"
      if "i \<le> total_words (xs @ mid @ ys) + 1"
        "i < 1 + total_words xs \<or> 1 + total_words xs + total_words mid \<le> i" for i
      using tag [OF that(1)] that(2) tot min by auto
    show "blocks_at (mem ?s') ?base (1 + total_words xs) [(a, u1), (b, u2)]"
      using tag [of "1 + total_words xs"] tag [of "total_words xs + a"]
        tag [of "1 + total_words xs + a"] tag [of "total_words xs + a + b"] tot min
      by (simp add: add.assoc)
  qed simp_all
  then show ?thesis by simp
qed

section \<open>Allocated blocks and their payloads\<close>

lemma used_blocks_append:
  "used_blocks k (xs @ ys) = used_blocks k xs @ used_blocks (k + total_words xs) ys"
  by (induction xs arbitrary: k) (auto simp: add.assoc)

lemma used_blocks_range:
  assumes "(j, n) \<in> set (used_blocks k bs)"
  shows "k \<le> j \<and> j + n \<le> k + total_words bs"
  using assms
proof (induction bs arbitrary: k)
  case Nil
  then show ?case by simp
next
  case (Cons b bs)
  obtain m u where b: "b = (m, u)" by (cases b)
  from Cons.prems b consider "(j, n) = (k, m)" | "(j, n) \<in> set (used_blocks (k + m) bs)"
    by (auto split: if_splits)
  then show ?case
  proof cases
    case 1
    then show ?thesis using b by simp
  next
    case 2
    from Cons.IH [OF 2] show ?thesis using b by simp
  qed
qed

lemma used_blocks_decomp:
  assumes "(j, n) \<in> set (used_blocks k bs)"
  shows "\<exists>xs ys. bs = xs @ (n, True) # ys \<and> j = k + total_words xs"
  using assms
proof (induction bs arbitrary: k)
  case Nil
  then show ?case by simp
next
  case (Cons b bs)
  obtain m u where b: "b = (m, u)" by (cases b)
  from Cons.prems b consider "(j, n) = (k, m)" "u" | "(j, n) \<in> set (used_blocks (k + m) bs)"
    by (auto split: if_splits)
  then show ?case
  proof cases
    case 1
    then have "b # bs = [] @ (n, True) # bs \<and> j = k + total_words []" using b by simp
    then show ?thesis by blast
  next
    case 2
    from Cons.IH [OF 2] obtain xs ys where "bs = xs @ (n, True) # ys" "j = k + m + total_words xs"
      by blast
    then have "b # bs = (b # xs) @ (n, True) # ys \<and> j = k + total_words (b # xs)"
      using b by simp
    then show ?thesis by blast
  qed
qed

lemma free_blocks_decomp:
  assumes "e \<in> set (free_blocks base k bs)"
  shows "\<exists>xs c ys. bs = xs @ (c, False) # ys \<and> e = word_at base (k + total_words xs)"
  using assms
proof (induction bs arbitrary: k)
  case Nil
  then show ?case by simp
next
  case (Cons b bs)
  obtain m u where b: "b = (m, u)" by (cases b)
  from Cons.prems b consider "e = word_at base k" "\<not> u" | "e \<in> set (free_blocks base (k + m) bs)"
    by (auto split: if_splits)
  then show ?case
  proof cases
    case 1
    then have "b # bs = [] @ (m, False) # bs \<and> e = word_at base (k + total_words [])"
      using b by simp
    then show ?thesis by blast
  next
    case 2
    from Cons.IH [OF 2] obtain xs c ys where
      "bs = xs @ (c, False) # ys" "e = word_at base (k + m + total_words xs)"
      by blast
    then have "b # bs = (b # xs) @ (c, False) # ys \<and> e = word_at base (k + total_words (b # xs))"
      using b by (simp add: add.assoc)
    then show ?thesis by blast
  qed
qed

text \<open>A payload byte of a block lies at least four bytes away from every tag cell that is
  not strictly between the header and the footer of the block.\<close>

lemma unat_neg_of_nat:
  assumes "0 < d" "d < 2 ^ 64"
  shows "unat (- (of_nat d :: 64 word)) = 2 ^ 64 - d"
proof -
  have u: "unat (of_nat d :: 64 word) = d" using assms by (simp add: unat_of_nat_64)
  have "unat (0 - (of_nat d :: 64 word)) =
          (if unat (of_nat d :: 64 word) \<le> unat (0 :: 64 word)
           then unat (0 :: 64 word) - unat (of_nat d :: 64 word)
           else unat (0 :: 64 word) + 2 ^ size (0 :: 64 word) - unat (of_nat d :: 64 word))"
    by (rule unat_sub_if_size)
  then show ?thesis
    using u assms(1) by (simp add: word_size)
qed

lemma payload_byte_far:
  assumes "j < 2 ^ 62" "k + n < 2 ^ 62" "i < 4 * (n - 2)" "j \<le> k \<or> k + n - 1 \<le> j"
  shows "4 \<le> word_at base (k + 1) + of_nat i - word_at base j"
proof -
  let ?X = "4 * (k + 1) + i" and ?J = "4 * j"
  have n: "2 < n" using assms(3) by simp
  have e: "word_at base (k + 1) + of_nat i - word_at base j = (of_nat ?X :: 64 word) - of_nat ?J"
    by (simp add: word_at_def)
  have X64: "?X < 2 ^ 64" using assms(2,3) by simp
  have J64: "?J < 2 ^ 64" using assms(1) by simp
  show ?thesis
  proof (cases "j \<le> k")
    case True
    then have le: "?J \<le> ?X" by simp
    have "(of_nat ?X :: 64 word) - of_nat ?J = of_nat (?X - ?J)"
      by (rule of_nat_sub_64 [OF le])
    moreover have "unat (of_nat (?X - ?J) :: 64 word) = ?X - ?J"
      by (rule unat_of_nat_64) (use X64 in simp)
    moreover have "4 \<le> ?X - ?J" using True by simp
    ultimately show ?thesis unfolding e by (simp add: word_le_nat_alt)
  next
    case False
    then have j: "k + n - 1 \<le> j" using assms(4) by simp
    then have lt: "?X < ?J" using assms(3) n by simp
    then have le: "?X \<le> ?J" by simp
    have "(of_nat ?J :: 64 word) - of_nat ?X = of_nat (?J - ?X)"
      by (rule of_nat_sub_64 [OF le])
    then have "(of_nat ?X :: 64 word) - of_nat ?J = - of_nat (?J - ?X)"
      by (metis minus_diff_eq)
    moreover have "unat (- (of_nat (?J - ?X) :: 64 word)) = 2 ^ 64 - (?J - ?X)"
      by (rule unat_neg_of_nat) (use lt J64 in simp_all)
    moreover have "?J - ?X \<le> 2 ^ 64 - 4" using assms(1) by simp
    ultimately show ?thesis unfolding e by (simp add: word_le_nat_alt)
  qed
qed

lemma store_tag_byte_other: "4 \<le> x - a \<Longrightarrow> store_tag m a t x = m x"
  by (simp add: store_tag_def store32_byte_other)

lemma put_block_byte:
  "4 \<le> x - word_at base k \<Longrightarrow> 4 \<le> x - word_at base (k + n - 1) \<Longrightarrow>
     mem (put_block base k n u s) x = mem s x"
  by (simp add: put_block_def store_tag_byte_other)

lemma payloads_kept_refl [simp]: "payloads_kept base bs m m"
  by (simp add: payloads_kept_def)

lemma payloads_kept_trans:
  assumes "payloads_kept base bs m m'" "payloads_kept base bs' m' m''"
    "set (used_blocks 1 bs) \<subseteq> set (used_blocks 1 bs')"
  shows "payloads_kept base bs m m''"
  using assms unfolding payloads_kept_def by fastforce

lemma payloads_kept_mono:
  assumes "payloads_kept base bs' m m'" "set (used_blocks 1 bs) \<subseteq> set (used_blocks 1 bs')"
  shows "payloads_kept base bs m m'"
  using assms unfolding payloads_kept_def by fastforce

text \<open>Writing the tags of a block that lies apart from, or encloses, every allocated block
  keeps the payloads.\<close>

lemma payloads_kept_put:
  assumes bound: "1 + total_words bs < 2 ^ 62" "j + m < 2 ^ 62" "1 \<le> m"
    and compat: "\<And>k n. (k, n) \<in> set (used_blocks 1 bs) \<Longrightarrow>
                   j + m \<le> k \<or> k + n \<le> j \<or> (j \<le> k \<and> k + n \<le> j + m)"
  shows "payloads_kept base bs (mem s) (mem (put_block base j m u s))"
  unfolding payloads_kept_def
proof (intro ballI allI impI, clarify)
  fix k n i
  assume kn: "(k, n) \<in> set (used_blocks 1 bs)" and i: "i < 4 * (n - 2)"
  have r: "1 \<le> k" "k + n \<le> 1 + total_words bs"
    using used_blocks_range [OF kn] by simp_all
  have n: "2 < n" using i by simp
  have c: "j + m \<le> k \<or> k + n \<le> j \<or> (j \<le> k \<and> k + n \<le> j + m)" by (rule compat [OF kn])
  have "4 \<le> word_at base (k + 1) + of_nat i - word_at base j"
    by (rule payload_byte_far) (use bound r i c n in auto)
  moreover have "4 \<le> word_at base (k + 1) + of_nat i - word_at base (j + m - 1)"
    by (rule payload_byte_far) (use bound r i c n in auto)
  ultimately show "mem (put_block base j m u s) (word_at base (k + 1) + of_nat i)
                     = mem s (word_at base (k + 1) + of_nat i)"
    by (rule put_block_byte)
qed

lemma payloads_kept_store:
  assumes bound: "1 + total_words bs < 2 ^ 62" "j < 2 ^ 62"
    and compat: "\<And>k n. (k, n) \<in> set (used_blocks 1 bs) \<Longrightarrow> j \<le> k \<or> k + n - 1 \<le> j"
  shows "payloads_kept base bs m (store_tag m (word_at base j) t)"
  unfolding payloads_kept_def
proof (intro ballI allI impI, clarify)
  fix k n i
  assume kn: "(k, n) \<in> set (used_blocks 1 bs)" and i: "i < 4 * (n - 2)"
  have r: "1 \<le> k" "k + n \<le> 1 + total_words bs"
    using used_blocks_range [OF kn] by simp_all
  have "4 \<le> word_at base (k + 1) + of_nat i - word_at base j"
    by (rule payload_byte_far) (use bound r i compat [OF kn] in auto)
  then show "store_tag m (word_at base j) t (word_at base (k + 1) + of_nat i)
               = m (word_at base (k + 1) + of_nat i)"
    by (rule store_tag_byte_other)
qed

lemma used_in_split:
  assumes "(k, n) \<in> set (used_blocks 1 (xs @ mid @ ys))"
  shows "k + n \<le> 1 + total_words xs \<or> 1 + total_words xs + total_words mid \<le> k
           \<or> (k, n) \<in> set (used_blocks (1 + total_words xs) mid)"
  using assms used_blocks_range [of k n 1 xs]
    used_blocks_range [of k n "1 + total_words xs + total_words mid" ys]
  by (auto simp: used_blocks_append)

lemma payloads_kept_span:
  assumes "1 + total_words (xs @ mid @ ys) < 2 ^ 62"
    and "1 + total_words xs \<le> j" "j + m \<le> 1 + total_words xs + total_words mid" "1 \<le> m"
    and "\<And>k n. (k, n) \<in> set (used_blocks (1 + total_words xs) mid) \<Longrightarrow>
           j + m \<le> k \<or> k + n \<le> j \<or> (j \<le> k \<and> k + n \<le> j + m)"
  shows "payloads_kept base (xs @ mid @ ys) (mem s) (mem (put_block base j m u s))"
proof (rule payloads_kept_put)
  show "1 + total_words (xs @ mid @ ys) < 2 ^ 62" by (rule assms(1))
  show "j + m < 2 ^ 62" using assms(1,3) by simp
  show "1 \<le> m" by (rule assms(4))
  show "j + m \<le> k \<or> k + n \<le> j \<or> (j \<le> k \<and> k + n \<le> j + m)"
    if "(k, n) \<in> set (used_blocks 1 (xs @ mid @ ys))" for k n
    using used_in_split [OF that] assms(2,3) assms(5) [of k n] by auto
qed

section \<open>Placement and coalescing on a well-formed heap\<close>

lemma blk_size_tag:
  "load_tag (mem s) a = tag u n \<Longrightarrow> n < 2 ^ 30 \<Longrightarrow> blk_size s a = of_nat n"
  by (simp add: blk_size_def scast_size_field)

lemma blk_free_tag: "load_tag (mem s) a = tag u n \<Longrightarrow> blk_free s a = (\<not> u)"
  by (simp add: blk_free_def)

lemma next_blk_tag:
  "load_tag (mem s) (word_at base k) = tag u n \<Longrightarrow> n < 2 ^ 30 \<Longrightarrow>
     next_blk s (word_at base k) = word_at base (k + n)"
  by (simp add: next_blk_def scast_size_field WSIZE_def word_at_add)

lemma prev_blk_tag:
  assumes "load_tag (mem s) (word_at base (k - 1)) = tag u p" "p < 2 ^ 30" "1 \<le> k" "p \<le> k"
  shows "prev_blk s (word_at base k) = (if p = 0 then None else Some (word_at base (k - p)))"
  using assms
  by (simp add: prev_blk_def prev_blk_footer_def Let_def word_at_minus_4 size_field_eq_0
      scast_size_field WSIZE_def word_at_sub)

lemma seg_upd_fields [simp]:
  "mem (s\<lparr>segregatedList := L\<rparr>) = mem s"
  by simp

lemma put_block_seg:
  "put_block base k n u (s\<lparr>segregatedList := L\<rparr>) = (put_block base k n u s)\<lparr>segregatedList := L\<rparr>"
  by (simp add: put_block_def)

lemma layout_ok_seg [simp]: "layout_ok (s\<lparr>segregatedList := L\<rparr>) bs = layout_ok s bs"
  by (simp add: layout_ok_def)

lemma lists_ok_put_block [simp]: "lists_ok (put_block base k n u s) F = lists_ok s F"
  by (simp add: lists_ok_def all_free_def)


text \<open>Placement on a well-formed heap.\<close>

lemma place_correct:
  assumes ok: "heap_ok s (xs @ (c, False) # ys)" and a: "8 \<le> a" "a \<le> c"
  shows "\<exists>s'. place (word_at (heap_listp s - 4) (1 + total_words xs)) (of_nat a) s = Some s'
            \<and> heap_ok s' (xs @ place_blocks c a @ ys)
            \<and> mem_brk s' = mem_brk s \<and> mem_max_addr s' = mem_max_addr s
            \<and> heap_listp s' = heap_listp s
            \<and> mem s' =
                (if 8 \<le> c - a
                 then mem (put_block (heap_listp s - 4) (1 + total_words xs + a) (c - a) False
                             (put_block (heap_listp s - 4) (1 + total_words xs) a True s))
                 else mem (put_block (heap_listp s - 4) (1 + total_words xs) c True s))"
proof -
  let ?base = "heap_listp s - 4"
  let ?k = "1 + total_words xs"
  let ?bp = "word_at ?base ?k"
  let ?F = "set (free_blocks ?base 1 (xs @ (c, False) # ys))"
  have lay: "layout_ok s (xs @ [(c, False)] @ ys)" and lists: "lists_ok s ?F"
    using ok by (simp_all add: heap_ok_def)
  have lay': "layout_ok s (xs @ (c, False) # ys)" using lay by simp
  note blk = layout_block [OF lay']
  have bound: "total_words (xs @ [(c, False)] @ ys) + 2 \<le> 2 ^ 30"
    by (rule layout_bound [OF lay])
  have c64: "c < 2 ^ 64" "a < 2 ^ 64" "c - a < 2 ^ 64" "(8 :: nat) < 2 ^ 64"
    using blk(4) a by (auto intro: less_trans [where y = "2 ^ 30"])
  have a30: "a < 2 ^ 30" "c - a < 2 ^ 30" using blk(4) a by simp_all
  have nz: "(of_nat a :: size_t) \<noteq> 0"
    using a of_nat_eq_64 [of a 0] c64 by simp
  have csize: "blk_size s ?bp = of_nat c"
    by (rule blk_size_tag [OF blk(1) blk(4)])
  have mem: "?bp \<in> ?F" by (simp add: free_blocks_append)
  let ?s1 = "s\<lparr>segregatedList := (\<lambda>i. remove1 ?bp (segregatedList s i))\<rparr>"
  have rm: "list_remove ?bp s = Some ?s1" and l1: "lists_ok ?s1 (?F - {?bp})"
    using lists_ok_remove [OF lists mem] by simp_all
  have lay1: "layout_ok ?s1 (xs @ [(c, False)] @ ys)" using lay by simp
  have ones: "list_all (\<lambda>(n, u). 1 \<le> n) (xs @ [(c, False)] @ ys)"
    by (rule layout_min [OF lay])
  have b62: "1 + total_words (xs @ [(c, False)] @ ys) < 2 ^ 62"
  proof -
    have "1 + total_words (xs @ [(c, False)] @ ys) < 2 ^ 30" using bound by simp
    also have "(2 :: nat) ^ 30 \<le> 2 ^ 62" by simp
    finally show ?thesis .
  qed
  have sub: "(of_nat c :: size_t) - of_nat a = of_nat (c - a)"
    by (rule of_nat_sub_64) (rule a)
  have "MIN_BLOCK_SIZE_WORDS = (of_nat 8 :: size_t)"
    by (simp add: MIN_BLOCK_SIZE_WORDS_def)
  then have cmp: "(MIN_BLOCK_SIZE_WORDS \<le> (of_nat c :: size_t) - of_nat a) = (8 \<le> c - a)"
    unfolding sub using of_nat_le_64 [OF c64(4) c64(3)] by (simp only:)
  have lt: "i < 2 ^ 62" if "i \<le> 1 + total_words (xs @ [(c, False)] @ ys)" for i :: nat
    using that b62 by simp
  show ?thesis
  proof (cases "8 \<le> c - a")
    case True
    let ?s2 = "put_block ?base ?k a True ?s1"
    let ?s3 = "put_block ?base (?k + a) (c - a) False ?s2"
    let ?bp' = "word_at ?base (?k + a)"
    have m2: "mark_block_used ?bp (ucast (of_nat a :: size_t)) ?s1 = ?s2"
      by (rule mark_block_used_put) (use a30 in simp_all)
    have "load_tag (mem ?s2) ?bp = tag True a"
      using load_tag_put_block [of ?k ?k a ?base True ?s1] lt [of ?k] lt [of "?k + a - 1"] a
      by simp
    then have nx: "next_blk ?s2 ?bp = ?bp'"
      using a30 by (simp add: next_blk_tag)
    have m3: "mark_block_free ?bp' (ucast (of_nat (c - a) :: size_t)) ?s2 = ?s3"
      by (rule mark_block_free_put) (use a30 in simp_all)
    have lay3: "layout_ok ?s3 (xs @ (a, True) # (c - a, False) # ys)"
      using layout_put_two [OF lay1, of a "c - a" False True] a True by simp
    have F3: "set (free_blocks ?base 1 (xs @ [(a, True), (c - a, False)] @ ys))
                = (?F - set (free_blocks ?base ?k [(c, False)]))
                  \<union> set (free_blocks ?base ?k [(a, True), (c - a, False)])"
      using free_blocks_replace [OF ones, of 1 "[(a, True), (c - a, False)]" ?base] b62 a
      by simp
    have ac: "a < c" using True by arith
    have notin: "?bp' \<notin> ?F - {?bp}"
    proof -
      have "?bp' \<notin> set (free_blocks ?base 1 xs)"
        by (rule free_blocks_notin) (use ones lt [of "?k + a"] a in simp_all)
      moreover have "?bp' \<notin> set (free_blocks ?base (?k + c) ys)"
        by (rule free_blocks_notin) (use ones b62 lt [of "?k + a"] ac in simp_all)
      ultimately show ?thesis by (auto simp: free_blocks_append)
    qed
    have bpnz: "?bp' \<noteq> 0"
      by (rule layout_word_at_nonzero [OF lay]) (use a in simp_all)
    have l3: "lists_ok ?s3 (?F - {?bp})" using l1 by simp
    from lists_ok_add [OF l3 notin bpnz] obtain s' where
      s': "segregatedListAdd ?bp' ?s3 = Some s'" "lists_ok s' (insert ?bp' (?F - {?bp}))"
      "mem s' = mem ?s3" "mem_brk s' = mem_brk ?s3" "mem_max_addr s' = mem_max_addr ?s3"
      "heap_listp s' = heap_listp ?s3"
      by blast
    have "layout_ok s' (xs @ (a, True) # (c - a, False) # ys)"
      by (rule layout_ok_cong [OF lay3]) (use s' in simp_all)
    moreover have "insert ?bp' (?F - {?bp}) =
        set (free_blocks ?base 1 (xs @ (a, True) # (c - a, False) # ys))"
      using F3 by simp
    ultimately have "heap_ok s' (xs @ place_blocks c a @ ys)"
      using s'(2,6) True by (simp add: heap_ok_def place_blocks_def)
    moreover have "place ?bp (of_nat a) s = Some s'"
      using nz csize rm cmp True m2 nx m3 s'(1)
      by (simp add: place_def Let_def)
    ultimately show ?thesis using s' True by (auto simp: put_block_seg)
  next
    case False
    let ?s2 = "put_block ?base ?k c True ?s1"
    have m2: "mark_block_used ?bp (ucast (of_nat c :: size_t)) ?s1 = ?s2"
      by (rule mark_block_used_put) (use blk(4) in simp_all)
    have lay2: "layout_ok ?s2 (xs @ (c, True) # ys)"
      using layout_put_block [OF lay1, of c True] blk(3) by simp
    have F2: "set (free_blocks ?base 1 (xs @ [(c, True)] @ ys))
                = (?F - set (free_blocks ?base ?k [(c, False)]))
                  \<union> set (free_blocks ?base ?k [(c, True)])"
      using free_blocks_replace [OF ones, of 1 "[(c, True)]" ?base] b62
      by simp
    have "lists_ok ?s2 (set (free_blocks ?base 1 (xs @ (c, True) # ys)))"
      using l1 F2 by simp
    then have "heap_ok ?s2 (xs @ place_blocks c a @ ys)"
      using lay2 False by (simp add: heap_ok_def place_blocks_def)
    moreover have "place ?bp (of_nat a) s = Some ?s2"
      using nz csize rm cmp False m2 by (simp add: place_def Let_def)
    ultimately show ?thesis using False by (auto simp: put_block_seg)
  qed
qed

lemma absorb_prev_cases:
  obtains (used) "xs = [] \<or> snd (last xs)" "absorb_prev xs = (xs, 0)"
  | (free) xs' p where "xs = xs' @ [(p, False)]" "absorb_prev xs = (xs', p)"
proof (cases "xs \<noteq> [] \<and> \<not> snd (last xs)")
  case True
  then have "xs = butlast xs @ [(fst (last xs), False)]"
    by (metis append_butlast_last_id prod.collapse)
  then show ?thesis using True free [of "butlast xs" "fst (last xs)"]
    by (simp add: absorb_prev_def)
next
  case False
  then show ?thesis using used by (auto simp: absorb_prev_def)
qed

lemma absorb_next_cases:
  obtains (used) "ys = [] \<or> snd (hd ys)" "absorb_next ys = (0, ys)"
  | (free) ys' q where "ys = (q, False) # ys'" "absorb_next ys = (q, ys')"
proof (cases "ys \<noteq> [] \<and> \<not> snd (hd ys)")
  case True
  then have "ys = (fst (hd ys), False) # tl ys"
    by (metis list.collapse prod.collapse)
  then show ?thesis using True free [of "fst (hd ys)" "tl ys"]
    by (simp add: absorb_next_def)
next
  case False
  then show ?thesis using used by (auto simp: absorb_next_def)
qed


lemma lt62: "(i :: nat) < 2 ^ 30 \<Longrightarrow> i < 2 ^ 62"
  by (erule less_le_trans) simp

lemma lt64: "(i :: nat) < 2 ^ 30 \<Longrightarrow> i < 2 ^ 64"
  by (erule less_le_trans) simp

lemma of_nat_nonzero_64: "0 < n \<Longrightarrow> n < 2 ^ 30 \<Longrightarrow> (of_nat n :: 64 word) \<noteq> 0"
  using of_nat_eq_64 [of n 0] by (simp add: lt64)

lemma seg_accessors [simp]:
  "prev_blk (s\<lparr>segregatedList := L\<rparr>) b = prev_blk s b"
  "next_blk (s\<lparr>segregatedList := L\<rparr>) b = next_blk s b"
  "blk_size (s\<lparr>segregatedList := L\<rparr>) b = blk_size s b"
  "blk_free (s\<lparr>segregatedList := L\<rparr>) b = blk_free s b"
  by (simp_all add: prev_blk_def next_blk_def blk_size_def blk_free_def Let_def)

text \<open>Coalescing a free block that is in no free list yet, on an otherwise well-formed
  heap.\<close>

lemma coalesce_correct:
  assumes lay: "layout_ok s (xs @ (n, False) # ys)"
    and lists: "lists_ok s (set (free_blocks (heap_listp s - 4) 1 (xs @ (n, True) # ys)))"
  shows "\<exists>s'. coalesce (word_at (heap_listp s - 4) (1 + total_words xs)) s =
               Some (word_at (heap_listp s - 4) (1 + total_words (fst (absorb_prev xs))), s')
            \<and> heap_ok s' (coalesce_blocks xs n ys)
            \<and> mem_brk s' = mem_brk s \<and> mem_max_addr s' = mem_max_addr s
            \<and> heap_listp s' = heap_listp s
            \<and> tag_writes s' =
                (if snd (absorb_prev xs) = 0 \<and> fst (absorb_next ys) = 0 then tag_writes s
                 else Header_and_footer
                        (word_at (heap_listp s - 4) (1 + total_words (fst (absorb_prev xs))))
                        (tag False (snd (absorb_prev xs) + n + fst (absorb_next ys)))
                      # tag_writes s)
            \<and> hd (segregatedList s'
                     (size_class (of_nat (snd (absorb_prev xs) + n + fst (absorb_next ys)))))
                = word_at (heap_listp s - 4) (1 + total_words (fst (absorb_prev xs)))
            \<and> mem s' =
                (if snd (absorb_prev xs) = 0 \<and> fst (absorb_next ys) = 0 then mem s
                 else mem (put_block (heap_listp s - 4) (1 + total_words (fst (absorb_prev xs)))
                             (snd (absorb_prev xs) + n + fst (absorb_next ys)) False s))"
proof -
  let ?base = "heap_listp s - 4"
  let ?k = "1 + total_words xs"
  let ?bp = "word_at ?base ?k"
  let ?F0 = "set (free_blocks ?base 1 (xs @ (n, True) # ys))"
  note blk = layout_block [OF lay]
  have bound: "total_words (xs @ (n, False) # ys) + 2 \<le> 2 ^ 30"
    by (rule layout_bound [OF lay])
  have lt: "i < 2 ^ 62" if "i \<le> 1 + total_words (xs @ (n, False) # ys)" for i :: nat
    by (rule lt62) (use that bound in simp)
  have ones: "list_all (\<lambda>(n, u). 1 \<le> n) (xs @ (n, False) # ys)"
    by (rule layout_min [OF lay])
  have bpnz: "?bp \<noteq> 0"
    by (rule layout_word_at_nonzero [OF lay]) simp_all
  have pfa: "prev_blk_footer ?bp = word_at ?base (total_words xs)"
    by (simp add: prev_blk_footer_def word_at_minus_4)
  have pf: "load_tag (mem s) (word_at ?base (total_words xs)) =
              (if xs = [] then FENCE else tag (snd (last xs)) (fst (last xs)))"
    by (rule layout_prev_footer [OF lay])
  have nx: "next_blk s ?bp = word_at ?base (?k + n)"
    by (rule next_blk_tag [OF blk(1) blk(4)])
  have nh: "load_tag (mem s) (word_at ?base (?k + n)) =
              (if ys = [] then FENCE else tag (snd (hd ys)) (fst (hd ys)))"
    using layout_next_header [of s "xs @ [(n, False)]" ys] lay by (simp add: add.assoc)
  have sz: "blk_size s ?bp = of_nat n"
    by (rule blk_size_tag [OF blk(1) blk(4)])
  have sznz: "(of_nat n :: size_t) \<noteq> 0"
    by (rule of_nat_nonzero_64) (use blk in simp_all)
  show ?thesis
  proof (cases xs rule: absorb_prev_cases)
    case used
    then have pa: "inuse (load_tag (mem s) (prev_blk_footer ?bp))"
      using pf pfa by auto
    show ?thesis
    proof (cases ys rule: absorb_next_cases)
      case used': used
      then have na: "\<not> blk_free s (next_blk s ?bp)"
        using nh nx by (auto simp: blk_free_def)
      have notin: "?bp \<notin> ?F0"
      proof -
        have "?bp \<notin> set (free_blocks ?base 1 xs)"
          by (rule free_blocks_notin) (use ones lt [of ?k] in simp_all)
        moreover have "?bp \<notin> set (free_blocks ?base (?k + n) ys)"
          by (rule free_blocks_notin) (use ones lt [of ?k] lt [of "?k + n + total_words ys"] blk(3) in simp_all)
        ultimately show ?thesis by (simp add: free_blocks_append)
      qed
      from lists_ok_add [OF lists notin bpnz] obtain s' where
        s': "segregatedListAdd ?bp s = Some s'" "lists_ok s' (insert ?bp ?F0)"
        "mem s' = mem s" "mem_brk s' = mem_brk s" "mem_max_addr s' = mem_max_addr s"
        "heap_listp s' = heap_listp s" "tag_writes s' = tag_writes s"
        "hd (segregatedList s' (size_class (ucast (blk_size s ?bp)))) = ?bp"
        by blast
      have bk: "hd (segregatedList s' (size_class (of_nat n))) = ?bp"
        using s'(8) sz by (simp add: ucast_of_nat_32)
      have "layout_ok s' (xs @ (n, False) # ys)"
        by (rule layout_ok_cong [OF lay]) (use s' in simp_all)
      moreover have "insert ?bp ?F0 = set (free_blocks ?base 1 (xs @ (n, False) # ys))"
        by (simp add: free_blocks_append)
      ultimately have "heap_ok s' (coalesce_blocks xs n ys)"
        using s'(2,6) used(2) used'(2) by (simp add: heap_ok_def coalesce_blocks_def)
      moreover have "coalesce ?bp s = Some (?bp, s')"
        using bpnz pa na sz sznz s'(1) by (simp add: coalesce_def Let_def)
      ultimately show ?thesis using s' bk used(2) used'(2) by auto
    next
      case (free ys' q)
      have lay2: "layout_ok s ((xs @ [(n, False)]) @ (q, False) # ys')"
        using lay free(1) by simp
      note nblk = layout_block [OF lay2]
      have na: "blk_free s (next_blk s ?bp)"
        using nh nx free(1) by (simp add: blk_free_def)
      let ?na = "word_at ?base (?k + n)"
      have nain: "?na \<in> ?F0" using free(1) by (simp add: free_blocks_append add.assoc)
      let ?s1 = "s\<lparr>segregatedList := (\<lambda>i. remove1 ?na (segregatedList s i))\<rparr>"
      have rm: "list_remove ?na s = Some ?s1" and l1: "lists_ok ?s1 (?F0 - {?na})"
        using lists_ok_remove [OF lists nain] by simp_all
      have nsz: "blk_size ?s1 ?na = of_nat q"
        using nh free(1) nblk(4) by (simp add: blk_size_tag)
      have nx1: "next_blk ?s1 ?bp = ?na" using nx by simp
      let ?s2 = "put_block ?base ?k (n + q) False ?s1"
      have nq: "n + q < 2 ^ 30" using bound free(1) by simp
      have m2: "mark_block_free ?bp (ucast (of_nat (n + q) :: size_t)) ?s1 = ?s2"
        by (rule mark_block_free_put) (use nq in simp_all)
      have lay3: "layout_ok ?s2 (xs @ (n + q, False) # ys')"
        using layout_put_block [of ?s1 xs "[(n, False), (q, False)]" ys' "n + q" False]
          lay free(1) blk(3) by simp
      have ones2: "list_all (\<lambda>(n, u). 1 \<le> n) (xs @ [(n, True), (q, False)] @ ys')"
        using ones free(1) by simp
      have Fn: "set (free_blocks ?base 1 (xs @ [(n + q, False)] @ ys')) = (?F0 - {?na}) \<union> {?bp}"
        using free_blocks_replace [OF ones2, of 1 "[(n + q, False)]" ?base] bound free(1)
          lt62 [of "1 + total_words (xs @ [(n, True), (q, False)] @ ys')"]
        by simp
      have notin: "?bp \<notin> ?F0 - {?na}"
      proof -
        have "?bp \<notin> set (free_blocks ?base 1 xs)"
          by (rule free_blocks_notin) (use ones lt [of ?k] in simp_all)
        moreover have "?bp \<notin> set (free_blocks ?base (?k + n) ys)"
          by (rule free_blocks_notin) (use ones lt [of ?k] lt [of "?k + n + total_words ys"] blk(3) in simp_all)
        ultimately show ?thesis by (simp add: free_blocks_append)
      qed
      have l2: "lists_ok ?s2 (?F0 - {?na})" using l1 by simp
      from lists_ok_add [OF l2 notin bpnz] obtain s' where
        s': "segregatedListAdd ?bp ?s2 = Some s'" "lists_ok s' (insert ?bp (?F0 - {?na}))"
        "mem s' = mem ?s2" "mem_brk s' = mem_brk ?s2" "mem_max_addr s' = mem_max_addr ?s2"
        "heap_listp s' = heap_listp ?s2" "tag_writes s' = tag_writes ?s2"
        "hd (segregatedList s' (size_class (ucast (blk_size ?s2 ?bp)))) = ?bp"
        by blast
      have "blk_size ?s2 ?bp = of_nat (n + q)"
        using layout_block(1) [OF lay3] nq by (simp add: blk_size_tag)
      then have bk: "hd (segregatedList s' (size_class (of_nat (n + q)))) = ?bp"
        using s'(8) ucast_of_nat_32 [of "n + q"] by simp
      have "layout_ok s' (xs @ (n + q, False) # ys')"
        by (rule layout_ok_cong [OF lay3]) (use s' in simp_all)
      moreover have "lists_ok s' (set (free_blocks ?base 1 (xs @ (n + q, False) # ys')))"
        using s'(2) Fn by simp
      ultimately have "heap_ok s' (coalesce_blocks xs n ys)"
        using s'(6) used(2) free(2) by (simp add: heap_ok_def coalesce_blocks_def)
      moreover have "coalesce ?bp s = Some (?bp, s')"
        using bpnz pa na sz sznz rm nx nx1 nsz m2 s'(1) by (simp add: coalesce_def Let_def)
      ultimately show ?thesis using s' bk used(2) free(2) blk(3) nblk(3)
        by (auto simp: put_block_seg)
    qed
  next
    case (free xs' p)
    have lay1: "layout_ok s (xs' @ (p, False) # (n, False) # ys)"
      using lay free(1) by simp
    note pblk = layout_block [OF lay1]
    have pa: "\<not> inuse (load_tag (mem s) (prev_blk_footer ?bp))"
      using pf pfa free(1) by simp
    let ?j = "1 + total_words xs'"
    let ?pa = "word_at ?base ?j"
    have kj: "?k - p = ?j" "p \<le> ?k" using free(1) by simp_all
    have pb: "prev_blk s ?bp = Some ?pa"
      using prev_blk_tag [of s ?base ?k False p] pf free(1) pblk(3,4) kj by simp
    have panz: "?pa \<noteq> 0"
      by (rule layout_word_at_nonzero [OF lay]) (use free(1) in simp_all)
    have pain: "?pa \<in> ?F0" using free(1) by (simp add: free_blocks_append)
    let ?s1 = "s\<lparr>segregatedList := (\<lambda>i. remove1 ?pa (segregatedList s i))\<rparr>"
    have rm: "list_remove ?pa s = Some ?s1" and l1: "lists_ok ?s1 (?F0 - {?pa})"
      using lists_ok_remove [OF lists pain] by simp_all
    have pb1: "prev_blk ?s1 ?bp = Some ?pa" using pb by simp
    have psz: "blk_size ?s1 ?pa = of_nat p"
      using pblk(1,4) by (simp add: blk_size_tag)
    have nx1: "next_blk ?s1 ?bp = word_at ?base (?k + n)" using nx by simp
    have notin: "?pa \<notin> ?F0 - {?pa}" by simp
    show ?thesis
    proof (cases ys rule: absorb_next_cases)
      case used
      then have na: "\<not> blk_free s (next_blk s ?bp)"
        using nh nx by (auto simp: blk_free_def)
      let ?s2 = "put_block ?base ?j (n + p) False ?s1"
      have np: "n + p < 2 ^ 30" using bound free(1) by simp
      have m2: "mark_block_free ?pa (ucast (of_nat (n + p) :: size_t)) ?s1 = ?s2"
        by (rule mark_block_free_put) (use np in simp_all)
      have lay3: "layout_ok ?s2 (xs' @ (n + p, False) # ys)"
        using layout_put_block [of ?s1 xs' "[(p, False), (n, False)]" ys "n + p" False]
          lay free(1) blk(3) by simp
      have ones2: "list_all (\<lambda>(n, u). 1 \<le> n) (xs' @ [(p, False), (n, True)] @ ys)"
        using ones free(1) by simp
      have Fn: "set (free_blocks ?base 1 (xs' @ [(n + p, False)] @ ys)) = (?F0 - {?pa}) \<union> {?pa}"
        using free_blocks_replace [OF ones2, of 1 "[(n + p, False)]" ?base] bound free(1)
          lt62 [of "1 + total_words (xs' @ [(p, False), (n, True)] @ ys)"]
        by (simp add: add.commute)
      have l2: "lists_ok ?s2 (?F0 - {?pa})" using l1 by simp
      from lists_ok_add [OF l2 notin panz] obtain s' where
        s': "segregatedListAdd ?pa ?s2 = Some s'" "lists_ok s' (insert ?pa (?F0 - {?pa}))"
        "mem s' = mem ?s2" "mem_brk s' = mem_brk ?s2" "mem_max_addr s' = mem_max_addr ?s2"
        "heap_listp s' = heap_listp ?s2" "tag_writes s' = tag_writes ?s2"
        "hd (segregatedList s' (size_class (ucast (blk_size ?s2 ?pa)))) = ?pa"
        by blast
      have "blk_size ?s2 ?pa = of_nat (n + p)"
        using layout_block(1) [OF lay3] np by (simp add: blk_size_tag)
      then have bk: "hd (segregatedList s' (size_class (of_nat (n + p)))) = ?pa"
        using s'(8) ucast_of_nat_32 [of "n + p"] by simp
      have "layout_ok s' (xs' @ (n + p, False) # ys)"
        by (rule layout_ok_cong [OF lay3]) (use s' in simp_all)
      moreover have "lists_ok s' (set (free_blocks ?base 1 (xs' @ (n + p, False) # ys)))"
        using s'(2) Fn by simp
      ultimately have "heap_ok s' (coalesce_blocks xs n ys)"
        using s'(6) used(2) free(2) by (simp add: heap_ok_def coalesce_blocks_def add.commute)
      moreover have "coalesce ?bp s = Some (?pa, s')"
        using bpnz pa na sz sznz pb rm pb1 psz m2 s'(1) by (simp add: coalesce_def Let_def)
      ultimately show ?thesis using s' bk used(2) free(2) pblk(3)
        by (auto simp: add.commute put_block_seg)
    next
      case free': (free ys' q)
      have lay2: "layout_ok s ((xs @ [(n, False)]) @ (q, False) # ys')"
        using lay free'(1) by simp
      note nblk = layout_block [OF lay2]
      have na: "blk_free s (next_blk s ?bp)"
        using nh nx free'(1) by (simp add: blk_free_def)
      let ?na = "word_at ?base (?k + n)"
      have nain: "?na \<in> ?F0 - {?pa}"
      proof -
        have "?na \<in> ?F0" using free'(1) by (simp add: free_blocks_append add.assoc)
        moreover have "?na \<noteq> ?pa"
          using word_at_inj [of "?k + n" ?j ?base] lt [of "?k + n"] lt [of ?j] free(1) blk(3)
          by auto
        ultimately show ?thesis by simp
      qed
      let ?s2 = "?s1\<lparr>segregatedList := (\<lambda>i. remove1 ?na (segregatedList ?s1 i))\<rparr>"
      have rm2: "list_remove ?na ?s1 = Some ?s2" and l2: "lists_ok ?s2 (?F0 - {?pa} - {?na})"
        using lists_ok_remove [OF l1 nain] by simp_all
      have pb2: "prev_blk ?s2 ?bp = Some ?pa" using pb by simp
      have psz2: "blk_size ?s2 ?pa = of_nat p"
        using pblk(1,4) by (simp add: blk_size_tag)
      have nx2: "next_blk ?s2 ?bp = ?na" using nx by simp
      have nsz2: "blk_size ?s2 ?na = of_nat q"
        using nh free'(1) nblk(4) by (simp add: blk_size_tag)
      let ?N = "n + q + p"
      let ?s3 = "put_block ?base ?j ?N False ?s2"
      have N: "?N < 2 ^ 30" using bound free(1) free'(1) by simp
      have m3: "mark_block_free ?pa (ucast (of_nat ?N :: size_t)) ?s2 = ?s3"
        by (rule mark_block_free_put) (use N in simp_all)
      have "load_tag (mem ?s3) (word_at ?base (?k - 1)) = load_tag (mem s) (word_at ?base (?k - 1))"
        using load_tag_put_block [of "?k - 1" ?j ?N ?base False ?s2]
          lt [of "?k - 1"] lt [of ?j] lt [of "?j + ?N - 1"] free(1) free'(1) pblk(3) blk(3)
        by simp
      then have "load_tag (mem ?s3) (word_at ?base (?k - 1)) = tag False p"
        using pf free(1) by simp
      from prev_blk_tag [OF this] have pb3: "prev_blk ?s3 ?bp = Some ?pa"
        using pblk(3,4) kj by simp
      have lay3: "layout_ok ?s3 (xs' @ (?N, False) # ys')"
        using layout_put_block [of ?s2 xs' "[(p, False), (n, False), (q, False)]" ys' ?N False]
          lay free(1) free'(1) blk(3) by simp
      have ones2: "list_all (\<lambda>(n, u). 1 \<le> n) (xs' @ [(p, False), (n, True), (q, False)] @ ys')"
        using ones free(1) free'(1) by simp
      have Fn: "set (free_blocks ?base 1 (xs' @ [(?N, False)] @ ys')) = (?F0 - {?pa} - {?na}) \<union> {?pa}"
        using free_blocks_replace [OF ones2, of 1 "[(?N, False)]" ?base] bound free(1) free'(1)
          lt62 [of "1 + total_words (xs' @ [(p, False), (n, True), (q, False)] @ ys')"]
        by (auto simp: add.assoc)
      have notin3: "?pa \<notin> ?F0 - {?pa} - {?na}" by simp
      have l3: "lists_ok ?s3 (?F0 - {?pa} - {?na})" using l2 by simp
      from lists_ok_add [OF l3 notin3 panz] obtain s' where
        s': "segregatedListAdd ?pa ?s3 = Some s'" "lists_ok s' (insert ?pa (?F0 - {?pa} - {?na}))"
        "mem s' = mem ?s3" "mem_brk s' = mem_brk ?s3" "mem_max_addr s' = mem_max_addr ?s3"
        "heap_listp s' = heap_listp ?s3" "tag_writes s' = tag_writes ?s3"
        "hd (segregatedList s' (size_class (ucast (blk_size ?s3 ?pa)))) = ?pa"
        by blast
      have "blk_size ?s3 ?pa = of_nat ?N"
        using layout_block(1) [OF lay3] N by (simp add: blk_size_tag)
      then have bk: "hd (segregatedList s' (size_class (of_nat ?N))) = ?pa"
        using s'(8) ucast_of_nat_32 [of ?N] by simp
      have "layout_ok s' (xs' @ (?N, False) # ys')"
        by (rule layout_ok_cong [OF lay3]) (use s' in simp_all)
      moreover have "lists_ok s' (set (free_blocks ?base 1 (xs' @ (?N, False) # ys')))"
        using s'(2) Fn by simp
      ultimately have "heap_ok s' (coalesce_blocks xs n ys)"
        using s'(6) free'(2) free(2) by (simp add: heap_ok_def coalesce_blocks_def add.commute add.left_commute)
      moreover have "coalesce ?bp s = Some (?pa, s')"
        using bpnz pa na sz sznz pb rm rm2 pb1 pb2 pb3 psz2 nx1 nx2 nsz2 m3 s'(1)
        by (simp add: coalesce_def Let_def)
      ultimately show ?thesis using s' bk free'(2) free(2) pblk(3)
        by (auto simp: add.commute add.left_commute put_block_seg)
    qed
  qed
qed

lemmas heap_ok_defs = heap_ok_def layout_ok_def lists_ok_def all_free_def Let_def
  mk_heap_defs FENCE_def NUM_SIZE_CLASSES_def upt_rec load_tag_store_tag_other

lemma init_heap_ok: "heap_ok init_heap [(128, False)]"
  unfolding init_heap_def by (simp add: heap_ok_defs)

text \<open>What the program reads from a block of a well-formed heap.\<close>

lemma heap_ok_block:
  assumes "heap_ok s (xs @ (n, u) # ys)"
  shows "blk_size s (word_at (heap_listp s - 4) (1 + total_words xs)) = of_nat n"
    and "blk_free s (word_at (heap_listp s - 4) (1 + total_words xs)) = (\<not> u)"
    and "load_tag (mem s) (get_footer s (word_at (heap_listp s - 4) (1 + total_words xs)))
           = load_tag (mem s) (word_at (heap_listp s - 4) (1 + total_words xs))"
    and "word_at (heap_listp s - 4) (1 + total_words xs) \<in> set (all_free s) \<longleftrightarrow> \<not> u"
proof -
  let ?base = "heap_listp s - 4"
  let ?bp = "word_at ?base (1 + total_words xs)"
  have lay: "layout_ok s (xs @ (n, u) # ys)"
    and lists: "lists_ok s (set (free_blocks ?base 1 (xs @ (n, u) # ys)))"
    using assms by (simp_all add: heap_ok_def)
  note blk = layout_block [OF lay]
  show "blk_size s ?bp = of_nat n" by (rule blk_size_tag [OF blk(1,4)])
  show "blk_free s ?bp = (\<not> u)" by (rule blk_free_tag [OF blk(1)])
  have "get_footer s ?bp = word_at ?base (total_words xs + n)"
    using blk(1,3,4)
    by (simp add: get_footer_def scast_size_field WSIZE_def word_at_add word_at_minus_4)
  then show "load_tag (mem s) (get_footer s ?bp) = load_tag (mem s) ?bp"
    using blk(1,2) by simp
  have ones: "list_all (\<lambda>(n, u). 1 \<le> n) (xs @ (n, u) # ys)"
    by (rule layout_min [OF lay])
  have b: "1 + total_words (xs @ (n, u) # ys) < 2 ^ 62"
    by (rule lt62) (use layout_bound [OF lay] in simp)
  have "?bp \<notin> set (free_blocks ?base 1 xs)"
    by (rule free_blocks_notin) (use ones b in simp_all)
  moreover have "?bp \<notin> set (free_blocks ?base (1 + total_words xs + n) ys)"
    by (rule free_blocks_notin) (use ones b blk(3) in simp_all)
  ultimately show "?bp \<in> set (all_free s) \<longleftrightarrow> \<not> u"
    using lists by (simp add: lists_ok_def free_blocks_append)
qed

lemma neighbour_tags:
  assumes lay: "layout_ok s (xs @ (n, u) # ys)"
  shows "inuse (load_tag (mem s) (prev_blk_footer (word_at (heap_listp s - 4) (1 + total_words xs))))
           = (snd (absorb_prev xs) = 0)"
    and "blk_free s (next_blk s (word_at (heap_listp s - 4) (1 + total_words xs)))
           = (fst (absorb_next ys) \<noteq> 0)"
proof -
  let ?base = "heap_listp s - 4"
  let ?k = "1 + total_words xs"
  note blk = layout_block [OF lay]
  have pfa: "prev_blk_footer (word_at ?base ?k) = word_at ?base (total_words xs)"
    by (simp add: prev_blk_footer_def word_at_minus_4)
  have pf: "load_tag (mem s) (word_at ?base (total_words xs)) =
              (if xs = [] then FENCE else tag (snd (last xs)) (fst (last xs)))"
    by (rule layout_prev_footer [OF lay])
  show "inuse (load_tag (mem s) (prev_blk_footer (word_at ?base ?k))) = (snd (absorb_prev xs) = 0)"
  proof (cases xs rule: absorb_prev_cases)
    case used
    then show ?thesis using pf pfa by auto
  next
    case (free xs' p)
    have "layout_ok s (xs' @ (p, False) # (n, u) # ys)" using lay free(1) by simp
    from layout_block(3) [OF this] show ?thesis using pf pfa free by simp
  qed
  have nx: "next_blk s (word_at ?base ?k) = word_at ?base (?k + n)"
    by (rule next_blk_tag [OF blk(1) blk(4)])
  have nh: "load_tag (mem s) (word_at ?base (?k + n)) =
              (if ys = [] then FENCE else tag (snd (hd ys)) (fst (hd ys)))"
    using layout_next_header [of s "xs @ [(n, u)]" ys] lay by (simp add: add.assoc)
  show "blk_free s (next_blk s (word_at ?base ?k)) = (fst (absorb_next ys) \<noteq> 0)"
  proof (cases ys rule: absorb_next_cases)
    case used
    then show ?thesis using nh nx by (auto simp: blk_free_def)
  next
    case (free ys' q)
    have "layout_ok s ((xs @ [(n, u)]) @ (q, False) # ys')" using lay free(1) by simp
    from layout_block(3) [OF this] show ?thesis using nh nx free by (simp add: blk_free_def)
  qed
qed

lemma coalesce_blocks_split:
  "coalesce_blocks xs n ys =
     fst (absorb_prev xs) @ (snd (absorb_prev xs) + n + fst (absorb_next ys), False)
       # snd (absorb_next ys)"
  by (simp add: coalesce_blocks_def)

section \<open>Freeing and heap extension on a well-formed heap\<close>

lemma layout_heap_listp_nonzero: "layout_ok s bs \<Longrightarrow> heap_listp s \<noteq> 0"
  by (auto simp: layout_ok_def Let_def)

lemma put_block_lists [simp]: "all_free (put_block base k n u s) = all_free s"
  by (simp add: all_free_def)

text \<open>Freeing an allocated block of a well-formed heap.\<close>

lemma mm_free_correct:
  assumes ok: "heap_ok s (xs @ (n, True) # ys)"
  shows "\<exists>s'. mm_free (word_at (heap_listp s - 4) (2 + total_words xs)) s = Some s'
            \<and> heap_ok s' (coalesce_blocks xs n ys)
            \<and> mem_brk s' = mem_brk s \<and> mem_max_addr s' = mem_max_addr s
            \<and> heap_listp s' = heap_listp s
            \<and> mem s' =
                (if snd (absorb_prev xs) = 0 \<and> fst (absorb_next ys) = 0
                 then mem (put_block (heap_listp s - 4) (1 + total_words xs) n False s)
                 else mem (put_block (heap_listp s - 4) (1 + total_words (fst (absorb_prev xs)))
                             (snd (absorb_prev xs) + n + fst (absorb_next ys)) False
                             (put_block (heap_listp s - 4) (1 + total_words xs) n False s)))"
proof -
  let ?base = "heap_listp s - 4"
  let ?k = "1 + total_words xs"
  let ?bp = "word_at ?base ?k"
  let ?ptr = "word_at ?base (2 + total_words xs)"
  have lay: "layout_ok s (xs @ [(n, True)] @ ys)"
    and lists: "lists_ok s (set (free_blocks ?base 1 (xs @ (n, True) # ys)))"
    using ok by (simp_all add: heap_ok_def)
  have lay': "layout_ok s (xs @ (n, True) # ys)" using lay by simp
  note blk = layout_block [OF lay']
  have hl: "heap_listp s \<noteq> 0" by (rule layout_heap_listp_nonzero [OF lay])
  have ptrnz: "?ptr \<noteq> 0"
    by (rule layout_word_at_nonzero [OF lay]) (use blk(3) in simp_all)
  have bp: "?ptr - 4 = ?bp" by (simp add: word_at_minus_4)
  have bpnz: "?bp \<noteq> 0"
    by (rule layout_word_at_nonzero [OF lay]) simp_all
  have sz: "blk_size s ?bp = of_nat n" by (rule blk_size_tag [OF blk(1,4)])
  let ?s1 = "put_block ?base ?k n False s"
  have m1: "mark_block_free ?bp (ucast (of_nat n :: size_t)) s = ?s1"
    by (rule mark_block_free_put) (use blk(4) in simp_all)
  have lay1: "layout_ok ?s1 (xs @ (n, False) # ys)"
    using layout_put_block [OF lay, of n False] blk(3) by simp
  have l1: "lists_ok ?s1 (set (free_blocks (heap_listp ?s1 - 4) 1 (xs @ (n, True) # ys)))"
    using lists by simp
  have lay1': "layout_ok ?s1 (xs @ (n, False) # ys)" using lay1 .
  from coalesce_correct [OF lay1' l1] obtain s' where
    s': "coalesce (word_at (heap_listp ?s1 - 4) (1 + total_words xs)) ?s1 =
           Some (word_at (heap_listp ?s1 - 4) (1 + total_words (fst (absorb_prev xs))), s')"
    "heap_ok s' (coalesce_blocks xs n ys)"
    "mem_brk s' = mem_brk ?s1" "mem_max_addr s' = mem_max_addr ?s1" "heap_listp s' = heap_listp ?s1"
    "mem s' =
       (if snd (absorb_prev xs) = 0 \<and> fst (absorb_next ys) = 0 then mem ?s1
        else mem (put_block (heap_listp ?s1 - 4) (1 + total_words (fst (absorb_prev xs)))
                    (snd (absorb_prev xs) + n + fst (absorb_next ys)) False ?s1))"
    by blast
  have "mm_free ?ptr s = Some s'"
    using hl ptrnz bp bpnz sz m1 s'(1) by (simp add: mm_free_def Let_def)
  then show ?thesis using s' by auto
qed


lemma store_direct_fields [simp]:
  "mem (store_direct a t s) = store_tag (mem s) a t"
  "mem_brk (store_direct a t s) = mem_brk s"
  "mem_max_addr (store_direct a t s) = mem_max_addr s"
  "heap_listp (store_direct a t s) = heap_listp s"
  "segregatedList (store_direct a t s) = segregatedList s"
  "tag_writes (store_direct a t s) = Direct a t # tag_writes s"
  by (simp_all add: store_direct_def)

lemma store_direct_brk:
  "store_direct a t (s\<lparr>mem_brk := b\<rparr>) = (store_direct a t s)\<lparr>mem_brk := b\<rparr>"
  by (simp add: store_direct_def)

lemma put_block_brk:
  "put_block base k n u (s\<lparr>mem_brk := b\<rparr>) = (put_block base k n u s)\<lparr>mem_brk := b\<rparr>"
  by (simp add: put_block_def)

text \<open>The heap grown by a free block of \<open>w\<close> words that overwrites the old epilogue fence,
  with a new epilogue fence behind it.\<close>

lemma layout_extend:
  assumes lay: "layout_ok s bs" and w: "8 \<le> w"
    and room: "unat (mem_brk s) + 4 * w \<le> unat (mem_max_addr s)"
  shows "layout_ok
           (store_direct (word_at (heap_listp s - 4) (1 + total_words bs + w)) FENCE
              (put_block (heap_listp s - 4) (1 + total_words bs) w False
                 (s\<lparr>mem_brk := mem_brk s + of_nat w * 4\<rparr>)))
           (bs @ [(w, False)])"
proof -
  let ?base = "heap_listp s - 4"
  let ?T = "total_words bs"
  let ?s1 = "s\<lparr>mem_brk := mem_brk s + of_nat w * 4\<rparr>"
  let ?s2 = "put_block ?base (1 + ?T) w False ?s1"
  let ?s3 = "store_direct (word_at ?base (1 + ?T + w)) FENCE ?s2"
  have g: "4 \<le> unat (heap_listp s)" "unat ?base + 4 * (?T + 2) = unat (mem_brk s)"
    "unat (mem_brk s) \<le> unat (mem_max_addr s)" "unat (mem_max_addr s) \<le> unat ?base + 2 ^ 32"
    "list_all (\<lambda>(n, u). 8 \<le> n) bs" "load_tag (mem s) ?base = FENCE"
    "blocks_at (mem s) ?base 1 bs"
    using lay by (simp_all add: layout_ok_def Let_def)
  have bound: "?T + w + 2 \<le> 2 ^ 30" using g(2,4) room by simp
  have lt: "i < 2 ^ 62" if "i \<le> ?T + w + 1" for i :: nat
    by (rule lt62) (use that bound in simp)
  have max64: "unat (mem_max_addr s) < 2 ^ 64"
    using unsigned_less [of "mem_max_addr s", where 'a = nat] by simp
  have "unat (mem_brk s) + unat (4 * of_nat w :: 64 word) < 2 ^ 64"
    using unat_4_of_nat [of w] lt [of w] room max64 by simp
  then have "unat (mem_brk s + 4 * of_nat w) = unat (mem_brk s) + unat (4 * of_nat w :: 64 word)"
    by (simp add: unat_plus_if')
  then have brk: "unat (mem_brk s + of_nat w * 4) = unat (mem_brk s) + 4 * w"
    using unat_4_of_nat [of w] lt [of w] by (simp add: mult.commute)
  have tag: "load_tag (mem ?s3) (word_at ?base i) =
      (if i = 1 + ?T + w then FENCE
       else if i = 1 + ?T \<or> i = ?T + w then tag False w
       else load_tag (mem s) (word_at ?base i))"
    if "i \<le> ?T + w + 1" for i
  proof -
    have "load_tag (mem ?s2) (word_at ?base i) =
      (if i = 1 + ?T \<or> i = 1 + ?T + w - 1 then tag False w
       else load_tag (mem ?s1) (word_at ?base i))"
      by (rule load_tag_put_block) (use that lt [of i] lt [of "1 + ?T"] lt [of "1 + ?T + w - 1"] in simp_all)
    then show ?thesis
      using load_tag_word_at [of "1 + ?T + w" i "mem ?s2" ?base FENCE] that
        lt [of i] lt [of "1 + ?T + w"] w
      by auto
  qed
  have "blocks_at (mem ?s3) ?base 1 bs = blocks_at (mem s) ?base 1 bs"
  proof (rule blocks_at_cong)
    show "list_all (\<lambda>(n, u). 1 \<le> n) bs" by (rule list_all_min_size [OF g(5)])
    show "load_tag (mem ?s3) (word_at ?base i) = load_tag (mem s) (word_at ?base i)"
      if "1 \<le> i" "i < 1 + ?T" for i
      using tag [of i] that w by simp
  qed
  moreover have "load_tag (mem ?s3) ?base = FENCE"
    using tag [of 0] g(6) w by simp
  ultimately show ?thesis
    using g brk w room tag [of "1 + ?T"] tag [of "?T + w"] tag [of "1 + ?T + w"]
    by (simp add: layout_ok_def Let_def blocks_at_append put_block_brk)
qed

lemma extend_heap_correct:
  assumes ok: "heap_ok s bs" and w: "8 \<le> w" "w < 2 ^ 62"
  shows "if unat (mem_brk s) + 4 * w \<le> unat (mem_max_addr s)
         then \<exists>s'. extend_heap (of_nat w) s =
                 Some (word_at (heap_listp s - 4) (1 + total_words (fst (absorb_prev bs))), s')
              \<and> heap_ok s' (coalesce_blocks bs w [])
              \<and> mem_max_addr s' = mem_max_addr s \<and> heap_listp s' = heap_listp s
              \<and> mem s' =
                  (if snd (absorb_prev bs) = 0
                   then mem (store_direct (word_at (heap_listp s - 4) (1 + total_words bs + w)) FENCE
                               (put_block (heap_listp s - 4) (1 + total_words bs) w False s))
                   else mem (put_block (heap_listp s - 4)
                               (1 + total_words (fst (absorb_prev bs)))
                               (snd (absorb_prev bs) + w) False
                               (store_direct (word_at (heap_listp s - 4) (1 + total_words bs + w)) FENCE
                                  (put_block (heap_listp s - 4) (1 + total_words bs) w False s))))
         else extend_heap (of_nat w) s = Some (0, s)"
proof -
  let ?base = "heap_listp s - 4"
  let ?T = "total_words bs"
  have lay: "layout_ok s bs" and lists: "lists_ok s (set (free_blocks ?base 1 bs))"
    using ok by (simp_all add: heap_ok_def)
  have u: "unat (of_nat w * WSIZE :: size_t) = 4 * w"
    using unat_4_of_nat [OF w(2)] by (simp add: WSIZE_def mult.commute)
  show ?thesis
  proof (cases "unat (mem_brk s) + 4 * w \<le> unat (mem_max_addr s)")
    case False
    then show ?thesis using u by (simp add: extend_heap_def mem_sbrk_def)
  next
    case True
    let ?s1 = "s\<lparr>mem_brk := mem_brk s + of_nat w * 4\<rparr>"
    let ?s2 = "put_block ?base (1 + ?T) w False ?s1"
    let ?s3 = "store_direct (word_at ?base (1 + ?T + w)) FENCE ?s2"
    have sb: "mem_sbrk (of_nat w * WSIZE) s = (mem_brk s, ?s1)"
      using True u by (simp add: mem_sbrk_def WSIZE_def)
    have brk: "mem_brk s = word_at ?base (?T + 2)" by (rule layout_brk [OF lay])
    have brknz: "mem_brk s \<noteq> 0"
      unfolding brk by (rule layout_word_at_nonzero [OF lay]) simp_all
    have blk: "mem_brk s - 4 = word_at ?base (1 + ?T)"
      unfolding brk by (simp add: word_at_minus_4)
    have bound: "?T + w + 2 \<le> 2 ^ 30"
      using lay True by (simp add: layout_ok_def Let_def)
    have w30: "w < 2 ^ 30" using bound by simp
    have m2: "mark_block_free (word_at ?base (1 + ?T)) (ucast (of_nat w :: size_t)) ?s1 = ?s2"
      using mark_block_free_put [of w "1 + ?T" ?base ?s1] w30 by simp
    have "load_tag (mem ?s2) (word_at ?base (1 + ?T)) = tag False w"
      using load_tag_put_block [of "1 + ?T" "1 + ?T" w ?base False ?s1]
        lt62 [of "1 + ?T"] lt62 [of "1 + ?T + w - 1"] bound by simp
    then have nx: "next_blk ?s2 (word_at ?base (1 + ?T)) = word_at ?base (1 + ?T + w)"
      using w30 by (simp add: next_blk_tag)
    have lay3: "layout_ok ?s3 (bs @ (w, False) # [])"
      using layout_extend [OF lay w(1) True] by simp
    have l3: "lists_ok ?s3 (set (free_blocks (heap_listp ?s3 - 4) 1 (bs @ (w, True) # [])))"
      using lists by (simp add: free_blocks_append lists_ok_def all_free_def)
    from coalesce_correct [OF lay3 l3] obtain s' where
      s': "coalesce (word_at (heap_listp ?s3 - 4) (1 + total_words bs)) ?s3 =
             Some (word_at (heap_listp ?s3 - 4) (1 + total_words (fst (absorb_prev bs))), s')"
      "heap_ok s' (coalesce_blocks bs w [])"
      "mem_max_addr s' = mem_max_addr ?s3" "heap_listp s' = heap_listp ?s3"
      "mem s' =
         (if snd (absorb_prev bs) = 0 \<and> fst (absorb_next []) = 0 then mem ?s3
          else mem (put_block (heap_listp ?s3 - 4) (1 + total_words (fst (absorb_prev bs)))
                      (snd (absorb_prev bs) + w + fst (absorb_next [])) False ?s3))"
      by blast
    have "extend_heap (of_nat w) s =
            Some (word_at ?base (1 + total_words (fst (absorb_prev bs))), s')"
      using sb brknz blk m2 nx s'(1) by (simp add: extend_heap_def Let_def)
    moreover have "fst (absorb_next []) = 0" by (simp add: absorb_next_def)
    ultimately show ?thesis using True s'
      by (auto simp: put_block_brk store_direct_brk put_block_def)
  qed
qed

section \<open>Size normalisation\<close>

lemma fifteen_mask: "(15 :: 64 word) = mask 4"
  by (simp add: mask_eq_exp_minus_1)

lemma and_not_15: "(x :: 64 word) AND NOT 15 = push_bit 4 (drop_bit 4 x)"
  unfolding fifteen_mask
  by (rule bit_word_eqI) (auto simp: bit_simps)

lemma and_not_15_unat: "unat ((x :: 64 word) AND NOT 15) = unat x div 16 * 16"
proof -
  have "unat (drop_bit 4 x) = unat x div 16"
    by (simp add: unat_drop_bit_eq drop_bit_eq_div unat_div)
  moreover have "unat x div 16 * 16 < 2 ^ 64"
    using unsigned_less [of x, where 'a = nat] div_times_less_eq_dividend [of "unat x" 16]
    by simp
  ultimately show ?thesis
    unfolding and_not_15 push_bit_eq_mult
    by (simp add: unat_word_ariths)
qed

lemma align_unat:
  assumes "unat x + 15 < 2 ^ 64"
  shows "unat (align x) = (unat x + 15) div 16 * 16"
proof -
  have "align x = (x + 15) AND NOT 15"
    unfolding align_def ALIGNMENT_def by (simp add: add.commute)
  moreover have "unat (x + 15) = unat x + 15"
    using assms by (simp add: unat_word_ariths)
  ultimately show ?thesis
    by (simp only: and_not_15_unat)
qed

lemma align_overflow:
  assumes "2 ^ 64 \<le> unat n + 23"
  shows "align (n + 2 * 4) < n"
proof -
  have n: "unat n < 2 ^ 64" using unsigned_less [of n, where 'a = nat] by simp
  have "align (n + 2 * 4) = (n + 23) AND NOT 15"
    unfolding align_def ALIGNMENT_def by (simp add: add.commute)
  moreover have "unat (n + 23) = unat n + 23 - 2 ^ 64"
    using assms n by (simp add: unat_plus_if')
  ultimately have "unat (align (n + 2 * 4)) = (unat n + 23 - 2 ^ 64) div 16 * 16"
    by (simp only: and_not_15_unat)
  also have "\<dots> \<le> unat n + 23 - 2 ^ 64" by simp
  also have "\<dots> < unat n" using assms n by simp
  finally show ?thesis by (simp add: word_less_nat_alt)
qed

lemma realloc_awords_spec:
  assumes "unat n + 23 < 2 ^ 64"
  shows "realloc_awords n = Some (of_nat (spec_normalize (unat n)))"
proof -
  have a: "unat (n + 2 * 4) = unat n + 8"
    using assms by (simp add: unat_word_ariths)
  then have b: "unat (align (n + 2 * 4)) = (unat n + 8 + 15) div 16 * 16"
    using assms by (simp add: align_unat)
  then have "unat n \<le> unat (align (n + 2 * 4))" by presburger
  then have c: "\<not> align (n + 2 * 4) < n" by (simp add: word_less_nat_alt)
  have d: "unat (align (n + 2 * 4) div WSIZE) = (unat n + 8 + 15) div 16 * 16 div 4"
    using b by (simp add: WSIZE_def unat_div)
  have "unat (max_sz MIN_BLOCK_SIZE_WORDS (align (n + 2 * 4) div WSIZE)) = spec_normalize (unat n)"
    using d unfolding max_sz_def MIN_BLOCK_SIZE_WORDS_def spec_normalize_def
    by (auto simp: word_less_nat_alt)
  then have "max_sz MIN_BLOCK_SIZE_WORDS (align (n + 2 * 4) div WSIZE) = of_nat (spec_normalize (unat n))"
    using word_arith_nat_add [of "max_sz MIN_BLOCK_SIZE_WORDS (align (n + 2 * 4) div WSIZE)" 0] by simp
  then show ?thesis
    unfolding realloc_awords_def Let_def using c by simp
qed

lemma realloc_awords_overflow:
  "2 ^ 64 \<le> unat n + 23 \<Longrightarrow> realloc_awords n = None"
  unfolding realloc_awords_def Let_def using align_overflow [of n] by simp

lemma malloc_awords_realloc:
  "n \<noteq> 0 \<Longrightarrow> malloc_awords n =
      realloc_awords (if n = 448 then 512 else if n = 112 then 128 else n)"
  unfolding malloc_awords_def realloc_awords_def by simp

section \<open>The fit search as a list function\<close>

lemma scan_list_eq:
  "scan_list s asize c es = find (fits s asize) (take (nat (4 - c)) es)"
proof (induction es arbitrary: c)
  case Nil
  then show ?case by simp
next
  case (Cons bp es)
  show ?case
  proof (cases "c + 1 \<ge> 5")
    case True
    then show ?thesis by simp
  next
    case False
    then have "nat (4 - c) = Suc (nat (4 - (c + 1)))" by simp
    then show ?thesis
      using False Cons.IH [of "c + 1"] by (simp add: fits_def Let_def)
  qed
qed

lemma find_fit_loop_eq:
  "find_fit_loop s asize is =
     (case List.map_filter (\<lambda>i. find (fits s asize) (take 4 (segregatedList s i))) is of
        [] \<Rightarrow> 0 | bp # _ \<Rightarrow> bp)"
  by (induction "is") (auto simp: scan_list_eq List.map_filter_simps split: option.splits)

section \<open>Payloads under the block operations\<close>

lemma layout_lt62:
  assumes "layout_ok s bs"
  shows "1 + total_words bs < 2 ^ 62"
  by (rule lt62) (use layout_bound [OF assms] in simp)

lemma place_full:
  assumes ok: "heap_ok s (xs @ (c, False) # ys)" and a: "8 \<le> a" "a \<le> c"
  shows "\<exists>s'. place (word_at (heap_listp s - 4) (1 + total_words xs)) (of_nat a) s = Some s'
            \<and> heap_ok s' (xs @ place_blocks c a @ ys)
            \<and> mem_brk s' = mem_brk s \<and> mem_max_addr s' = mem_max_addr s
            \<and> heap_listp s' = heap_listp s
            \<and> payloads_kept (heap_listp s - 4) (xs @ (c, False) # ys) (mem s) (mem s')"
proof -
  let ?base = "heap_listp s - 4"
  let ?k = "1 + total_words xs"
  let ?bs = "xs @ [(c, False)] @ ys"
  have lay: "layout_ok s ?bs" using ok by (simp add: heap_ok_def)
  have b: "1 + total_words ?bs < 2 ^ 62" by (rule layout_lt62 [OF lay])
  from place_correct [OF ok a] obtain s' where
    s': "place (word_at ?base ?k) (of_nat a) s = Some s'"
    "heap_ok s' (xs @ place_blocks c a @ ys)"
    "mem_brk s' = mem_brk s" "mem_max_addr s' = mem_max_addr s" "heap_listp s' = heap_listp s"
    "mem s' =
       (if 8 \<le> c - a
        then mem (put_block ?base (?k + a) (c - a) False (put_block ?base ?k a True s))
        else mem (put_block ?base ?k c True s))"
    by blast
  have p: "payloads_kept ?base ?bs (mem t) (mem (put_block ?base j m u t))"
    if "?k \<le> j" "j + m \<le> ?k + c" "1 \<le> m" for j m u t
    by (rule payloads_kept_span [OF b]) (use that in simp_all)
  have "payloads_kept ?base ?bs (mem s) (mem s')"
  proof (cases "8 \<le> c - a")
    case True
    have "payloads_kept ?base ?bs (mem s) (mem (put_block ?base ?k a True s))"
      by (rule p) (use a in simp_all)
    moreover have "payloads_kept ?base ?bs (mem (put_block ?base ?k a True s))
        (mem (put_block ?base (?k + a) (c - a) False (put_block ?base ?k a True s)))"
      by (rule p) (use a True in simp_all)
    ultimately show ?thesis
      using s'(6) True by (auto intro: payloads_kept_trans)
  next
    case False
    have "payloads_kept ?base ?bs (mem s) (mem (put_block ?base ?k c True s))"
      by (rule p) (use a in simp_all)
    then show ?thesis using s'(6) False by simp
  qed
  then show ?thesis using s' by auto
qed

lemma used_blocks_free_run [simp]:
  "used_blocks k [(p, False)] = []"
  "used_blocks k [(p, False), (n, False)] = []"
  "used_blocks k [(p, False), (n, False), (q, False)] = []"
  by simp_all

lemma mm_free_full:
  assumes ok: "heap_ok s (xs @ (n, True) # ys)"
  shows "\<exists>s'. mm_free (word_at (heap_listp s - 4) (2 + total_words xs)) s = Some s'
            \<and> heap_ok s' (coalesce_blocks xs n ys)
            \<and> mem_brk s' = mem_brk s \<and> mem_max_addr s' = mem_max_addr s
            \<and> heap_listp s' = heap_listp s
            \<and> payloads_kept (heap_listp s - 4) (xs @ (n, True) # ys) (mem s) (mem s')"
proof -
  let ?base = "heap_listp s - 4"
  let ?k = "1 + total_words xs"
  let ?bs = "xs @ (n, True) # ys"
  let ?p = "snd (absorb_prev xs)" and ?q = "fst (absorb_next ys)"
  let ?j = "1 + total_words (fst (absorb_prev xs))"
  let ?s1 = "put_block ?base ?k n False s"
  have lay: "layout_ok s ?bs" using ok by (simp add: heap_ok_def)
  note blk = layout_block [OF lay]
  have b: "1 + total_words ?bs < 2 ^ 62" by (rule layout_lt62 [OF lay])
  from mm_free_correct [OF ok] obtain s' where
    s': "mm_free (word_at ?base (2 + total_words xs)) s = Some s'"
    "heap_ok s' (coalesce_blocks xs n ys)"
    "mem_brk s' = mem_brk s" "mem_max_addr s' = mem_max_addr s" "heap_listp s' = heap_listp s"
    "mem s' = (if ?p = 0 \<and> ?q = 0 then mem ?s1 else mem (put_block ?base ?j (?p + n + ?q) False ?s1))"
    by blast
  have k1: "payloads_kept ?base ?bs (mem s) (mem ?s1)"
    using payloads_kept_span [of xs "[(n, True)]" ys ?k n ?base s False] b blk(3) by simp
  have k2: "payloads_kept ?base ?bs (mem ?s1) (mem (put_block ?base ?j (?p + n + ?q) False ?s1))"
  proof (cases xs rule: absorb_prev_cases)
    case used
    show ?thesis
    proof (cases ys rule: absorb_next_cases)
      case used': used
      show ?thesis
        using payloads_kept_span [of xs "[(n, True)]" ys ?k n ?base ?s1 False] b blk(3) used used'
        by simp
    next
      case (free ys' q)
      show ?thesis
        using payloads_kept_span [of xs "[(n, True), (q, False)]" ys' ?k "n + q" ?base ?s1 False]
          b blk(3) used free by simp
    qed
  next
    case (free xs' p)
    show ?thesis
    proof (cases ys rule: absorb_next_cases)
      case used
      show ?thesis
        using payloads_kept_span [of xs' "[(p, False), (n, True)]" ys "1 + total_words xs'"
            "p + n" ?base ?s1 False] b blk(3) used free by simp
    next
      case free': (free ys' q)
      show ?thesis
        using payloads_kept_span [of xs' "[(p, False), (n, True), (q, False)]" ys'
            "1 + total_words xs'" "p + n + q" ?base ?s1 False] b blk(3) free free'
        by simp
    qed
  qed
  have "payloads_kept ?base ?bs (mem s) (mem s')"
    using s'(6) k1 k2 by (auto intro: payloads_kept_trans)
  then show ?thesis using s' by auto
qed

lemma extend_heap_full:
  assumes ok: "heap_ok s bs" and w: "8 \<le> w" "w < 2 ^ 62"
  shows "if unat (mem_brk s) + 4 * w \<le> unat (mem_max_addr s)
         then \<exists>s'. extend_heap (of_nat w) s =
                 Some (word_at (heap_listp s - 4) (1 + total_words (fst (absorb_prev bs))), s')
              \<and> heap_ok s' (coalesce_blocks bs w [])
              \<and> mem_max_addr s' = mem_max_addr s \<and> heap_listp s' = heap_listp s
              \<and> payloads_kept (heap_listp s - 4) bs (mem s) (mem s')
         else extend_heap (of_nat w) s = Some (0, s)"
proof (cases "unat (mem_brk s) + 4 * w \<le> unat (mem_max_addr s)")
  case False
  then show ?thesis using extend_heap_correct [OF ok w] by simp
next
  case True
  let ?base = "heap_listp s - 4"
  let ?T = "total_words bs"
  let ?p = "snd (absorb_prev bs)"
  let ?j = "1 + total_words (fst (absorb_prev bs))"
  let ?e = "word_at ?base (1 + ?T + w)"
  let ?s2 = "put_block ?base (1 + ?T) w False s"
  let ?s3 = "store_direct ?e FENCE ?s2"
  have lay: "layout_ok s bs" using ok by (simp add: heap_ok_def)
  have bound: "?T + w + 2 \<le> 2 ^ 30"
    using lay True by (simp add: layout_ok_def Let_def)
  have b: "1 + ?T < 2 ^ 62" by (rule layout_lt62 [OF lay])
  have b2: "1 + ?T + w < 2 ^ 62" by (rule lt62) (use bound in simp)
  from extend_heap_correct [OF ok w] True obtain s' where
    s': "extend_heap (of_nat w) s = Some (word_at ?base ?j, s')"
    "heap_ok s' (coalesce_blocks bs w [])"
    "mem_max_addr s' = mem_max_addr s" "heap_listp s' = heap_listp s"
    "mem s' = (if ?p = 0 then mem ?s3 else mem (put_block ?base ?j (?p + w) False ?s3))"
    by auto
  have k1: "payloads_kept ?base bs (mem s) (mem ?s2)"
    by (rule payloads_kept_put) (use b b2 w used_blocks_range [of _ _ 1 bs] in auto)
  have k2: "payloads_kept ?base bs (mem ?s2) (mem ?s3)"
    unfolding store_direct_fields
  proof (rule payloads_kept_store)
    show "1 + ?T < 2 ^ 62" by (rule b)
    show "1 + ?T + w < 2 ^ 62" by (rule b2)
    show "1 + ?T + w \<le> k \<or> k + n - 1 \<le> 1 + ?T + w"
      if "(k, n) \<in> set (used_blocks 1 bs)" for k n
      using used_blocks_range [OF that] by arith
  qed
  have k3: "payloads_kept ?base bs (mem ?s3) (mem (put_block ?base ?j (?p + w) False ?s3))"
  proof (cases bs rule: absorb_prev_cases)
    case used
    show ?thesis
      by (rule payloads_kept_put) (use b b2 w used used_blocks_range [of _ _ 1 bs] in auto)
  next
    case (free xs' p)
    have "k + n \<le> 1 + total_words xs'" if "(k, n) \<in> set (used_blocks 1 bs)" for k n
      using that used_blocks_range [of k n 1 xs'] free(1) by (simp add: used_blocks_append)
    then show ?thesis
      using payloads_kept_put [of bs ?j "p + w" ?base ?s3 False] b b2 w free by fastforce
  qed
  have "payloads_kept ?base bs (mem s) (mem s')"
    using s'(5) k1 k2 k3 by (auto intro: payloads_kept_trans)
  then show ?thesis using True s' by auto
qed

section \<open>Allocation on a well-formed heap\<close>

lemma realloc_awords_None_iff:
  "realloc_awords n = None \<longleftrightarrow> 2 ^ 64 \<le> unat n + 23"
proof (cases "2 ^ 64 \<le> unat n + 23")
  case True
  then show ?thesis by (simp add: realloc_awords_overflow)
next
  case False
  then have "unat n + 23 < 2 ^ 64" by simp
  from realloc_awords_spec [OF this] False show ?thesis by simp
qed

lemma spec_normalize_bounds:
  assumes "m + 23 < 2 ^ 64"
  shows "8 \<le> spec_normalize m" "spec_normalize m < 2 ^ 62" "m + 8 \<le> 4 * spec_normalize m"
proof -
  show "8 \<le> spec_normalize m" by (simp add: spec_normalize_def)
  have "(m + 8 + 15) div 16 * 16 \<le> m + 23"
    using div_times_less_eq_dividend [of "m + 8 + 15" 16] by simp
  then have "(m + 8 + 15) div 16 * 16 div 4 < 2 ^ 62" using assms by simp
  then show "spec_normalize m < 2 ^ 62" by (simp add: spec_normalize_def)
  show "m + 8 \<le> 4 * spec_normalize m"
    unfolding spec_normalize_def by (simp add: max_def) presburger
qed

lemma realloc_awords_Some:
  assumes "realloc_awords n = Some a"
  shows "a = of_nat (unat a)" "8 \<le> unat a" "unat a < 2 ^ 62" "unat n + 8 \<le> 4 * unat a"
    "unat a = spec_normalize (unat n)"
proof -
  have b: "unat n + 23 < 2 ^ 64"
    using assms realloc_awords_None_iff [of n] by (cases "2 ^ 64 \<le> unat n + 23") simp_all
  note sb = spec_normalize_bounds [OF b]
  have a: "a = of_nat (spec_normalize (unat n))"
    using realloc_awords_spec [OF b] assms by simp
  have "spec_normalize (unat n) < 2 ^ 64"
    by (rule less_le_trans [OF sb(2)]) simp
  then show u: "unat a = spec_normalize (unat n)"
    unfolding a by (simp add: unat_of_nat_64)
  show "a = of_nat (unat a)" by simp
  show "8 \<le> unat a" "unat a < 2 ^ 62" "unat n + 8 \<le> 4 * unat a"
    using sb u by simp_all
qed

lemma malloc_awords_None_iff:
  "malloc_awords n = None \<longleftrightarrow> n = 0 \<or> 2 ^ 64 \<le> unat n + 23"
proof (cases "n = 0")
  case True
  then show ?thesis by (simp add: malloc_awords_def)
next
  case False
  have "realloc_awords 512 \<noteq> None" "realloc_awords 128 \<noteq> None"
    by (simp_all add: realloc_awords_None_iff)
  then show ?thesis
    using False malloc_awords_realloc [OF False] realloc_awords_None_iff [of n]
    by auto
qed

lemma malloc_awords_Some:
  assumes "malloc_awords n = Some a"
  shows "8 \<le> unat a" "unat a < 2 ^ 62" "unat n + 8 \<le> 4 * unat a"
proof -
  have n: "n \<noteq> 0" using assms by (auto simp: malloc_awords_def)
  let ?n = "if n = 448 then 512 else if n = 112 then 128 else n"
  have r: "realloc_awords ?n = Some a"
    using malloc_awords_realloc [OF n] assms by simp
  show "8 \<le> unat a" "unat a < 2 ^ 62" by (rule realloc_awords_Some [OF r])+
  have "unat n \<le> unat ?n" by simp
  then show "unat n + 8 \<le> 4 * unat a" using realloc_awords_Some(4) [OF r] by linarith
qed

lemma find_fit_loop_result:
  "find_fit_loop s asize is = 0
   \<or> (\<exists>i \<in> set is. find_fit_loop s asize is \<in> set (segregatedList s i))
      \<and> fits s asize (find_fit_loop s asize is)"
proof (induction "is")
  case Nil
  then show ?case by simp
next
  case (Cons i "is")
  show ?case
  proof (cases "find (fits s asize) (take 4 (segregatedList s i))")
    case None
    then show ?thesis using Cons by (auto simp: scan_list_eq)
  next
    case (Some bp)
    then have "bp \<in> set (take 4 (segregatedList s i))" "fits s asize bp"
      by (auto simp: find_Some_iff in_set_conv_nth)
    then have "bp \<in> set (segregatedList s i)" "fits s asize bp"
      by (auto dest: in_set_takeD)
    then show ?thesis using Some by (auto simp: scan_list_eq)
  qed
qed

lemma find_fit_result:
  assumes ok: "heap_ok s bs" and a: "1 \<le> a" "a < 2 ^ 64"
  shows "\<exists>r. find_fit (of_nat a) s = Some r
           \<and> (r = 0 \<or> (\<exists>xs c ys. bs = xs @ (c, False) # ys
                          \<and> r = word_at (heap_listp s - 4) (1 + total_words xs) \<and> a \<le> c))"
proof -
  let ?base = "heap_listp s - 4"
  let ?r = "find_fit_loop s (of_nat a) [0..<NUM_SIZE_CLASSES]"
  have nz: "(of_nat a :: size_t) \<noteq> 0" using of_nat_eq_64 [of a 0] a by simp
  have ff: "find_fit (of_nat a) s = Some ?r" using nz by (simp add: find_fit_def)
  have "?r = 0 \<or> (\<exists>xs c ys. bs = xs @ (c, False) # ys
                          \<and> ?r = word_at ?base (1 + total_words xs) \<and> a \<le> c)"
  proof (cases "?r = 0")
    case True
    then show ?thesis by simp
  next
    case False
    with find_fit_loop_result [of s "of_nat a" "[0..<NUM_SIZE_CLASSES]"]
    have "?r \<in> set (all_free s)" and fit: "fits s (of_nat a) ?r"
      by (auto simp: in_all_free)
    then have "?r \<in> set (free_blocks ?base 1 bs)"
      using ok by (simp add: heap_ok_def lists_ok_def)
    from free_blocks_decomp [OF this] obtain xs c ys where
      bs: "bs = xs @ (c, False) # ys" and r: "?r = word_at ?base (1 + total_words xs)"
      by blast
    have ok': "heap_ok s (xs @ (c, False) # ys)" using ok bs by simp
    have lay: "layout_ok s (xs @ (c, False) # ys)" using ok' by (simp add: heap_ok_def)
    have "(of_nat a :: size_t) \<le> of_nat c"
      using fit heap_ok_block(1) [OF ok'] r by (simp add: fits_def)
    moreover have "c < 2 ^ 64" by (rule lt64) (use layout_block(4) [OF lay] in simp)
    ultimately have "a \<le> c" using a(2) by (simp add: of_nat_le_64)
    then show ?thesis using bs r by blast
  qed
  then show ?thesis using ff by simp
qed

lemma used_blocks_free_tail:
  "set (used_blocks k (xs @ [(p, False)])) = set (used_blocks k xs)"
  by (simp add: used_blocks_append)

lemma used_blocks_absorb_prev:
  "set (used_blocks k (fst (absorb_prev bs))) = set (used_blocks k bs)"
  by (cases bs rule: absorb_prev_cases) (simp_all add: used_blocks_append)

lemma total_absorb_prev:
  "total_words (fst (absorb_prev bs)) + snd (absorb_prev bs) = total_words bs"
  by (cases bs rule: absorb_prev_cases) (simp_all add: total_append)

lemma alloc_in_free:
  assumes ok: "heap_ok s (xs @ (c, False) # ys)" and a: "8 \<le> a" "a \<le> c"
  shows "\<exists>s' c' ys'. place (word_at (heap_listp s - 4) (1 + total_words xs)) (of_nat a) s = Some s'
            \<and> heap_ok s' (xs @ (c', True) # ys') \<and> a \<le> c' \<and> c' \<le> c
            \<and> mem_brk s' = mem_brk s \<and> mem_max_addr s' = mem_max_addr s
            \<and> heap_listp s' = heap_listp s
            \<and> set (used_blocks 1 (xs @ (c', True) # ys'))
                = insert (1 + total_words xs, c') (set (used_blocks 1 (xs @ (c, False) # ys)))
            \<and> (\<forall>(k, n) \<in> set (used_blocks 1 (xs @ (c, False) # ys)).
                  k + n \<le> 1 + total_words xs \<or> 1 + total_words xs + c' \<le> k)
            \<and> payloads_kept (heap_listp s - 4) (xs @ (c, False) # ys) (mem s) (mem s')"
proof -
  let ?k = "1 + total_words xs"
  let ?c = "if 8 \<le> c - a then a else c"
  let ?ys = "if 8 \<le> c - a then (c - a, False) # ys else ys"
  from place_full [OF ok a] obtain s' where
    s': "place (word_at (heap_listp s - 4) ?k) (of_nat a) s = Some s'"
    "heap_ok s' (xs @ place_blocks c a @ ys)"
    "mem_brk s' = mem_brk s" "mem_max_addr s' = mem_max_addr s" "heap_listp s' = heap_listp s"
    "payloads_kept (heap_listp s - 4) (xs @ (c, False) # ys) (mem s) (mem s')"
    by blast
  have eq: "xs @ place_blocks c a @ ys = xs @ (?c, True) # ?ys"
    by (simp add: place_blocks_def)
  have u: "set (used_blocks 1 (xs @ (?c, True) # ?ys))
             = insert (?k, ?c) (set (used_blocks 1 (xs @ (c, False) # ys)))"
    using a by (auto simp: used_blocks_append add.assoc)
  have d: "k + n \<le> ?k \<or> ?k + ?c \<le> k" if "(k, n) \<in> set (used_blocks 1 (xs @ (c, False) # ys))" for k n
    using used_in_split [of k n xs "[(c, False)]" ys] that a by auto
  have "heap_ok s' (xs @ (?c, True) # ?ys)" using s'(2) eq by simp
  moreover have "a \<le> ?c" "?c \<le> c" using a by simp_all
  ultimately show ?thesis using s' u d by blast
qed

lemma max_sz_of_nat:
  assumes "a < 2 ^ 64"
  shows "max_sz (of_nat a) CHUNKSIZE = of_nat (max a 128)"
  using assms of_nat_less_64 [of a 128]
  by (auto simp: max_sz_def CHUNKSIZE_128 max_def)

lemma mm_malloc_correct:
  assumes ok: "heap_ok s bs"
  shows "\<exists>r s'. mm_malloc sz s = Some (r, s')
           \<and> mem_max_addr s' = mem_max_addr s \<and> heap_listp s' = heap_listp s
           \<and> ((r = 0) = (malloc_awords sz = None
                 \<or> (\<exists>aw. malloc_awords sz = Some aw \<and> find_fit aw s = Some 0
                      \<and> unat (mem_max_addr s) < unat (mem_brk s) + 4 * max (unat aw) 128)))
           \<and> (r = 0 \<longrightarrow> s' = s)
           \<and> (r \<noteq> 0 \<longrightarrow>
                (\<exists>xs c ys. heap_ok s' (xs @ (c, True) # ys)
                   \<and> r = word_at (heap_listp s - 4) (2 + total_words xs)
                   \<and> unat sz + 8 \<le> 4 * c
                   \<and> set (used_blocks 1 (xs @ (c, True) # ys))
                       = insert (1 + total_words xs, c) (set (used_blocks 1 bs))
                   \<and> (\<forall>(k, n) \<in> set (used_blocks 1 bs).
                         k + n \<le> 1 + total_words xs \<or> 1 + total_words xs + c \<le> k)
                   \<and> payloads_kept (heap_listp s - 4) bs (mem s) (mem s')))"
proof (cases "malloc_awords sz")
  case None
  then show ?thesis by (simp add: mm_malloc_def)
next
  case (Some aw)
  let ?base = "heap_listp s - 4"
  let ?a = "unat aw"
  note aw = malloc_awords_Some [OF Some]
  have a64: "?a < 2 ^ 64" using unsigned_less [of aw, where 'a = nat] by simp
  have awa: "aw = of_nat ?a" by simp
  from find_fit_result [OF ok, of ?a] aw(1) a64 obtain r0 where
    ff: "find_fit aw s = Some r0"
    and r0: "r0 = 0 \<or> (\<exists>xs c ys. bs = xs @ (c, False) # ys
                          \<and> r0 = word_at ?base (1 + total_words xs) \<and> ?a \<le> c)"
    by auto
  have lay: "layout_ok s bs" using ok by (simp add: heap_ok_def)
  show ?thesis
  proof (cases "r0 = 0")
    case False
    with r0 obtain xs c ys where bs: "bs = xs @ (c, False) # ys"
      and r0': "r0 = word_at ?base (1 + total_words xs)" and ac: "?a \<le> c"
      by blast
    have ok': "heap_ok s (xs @ (c, False) # ys)" using ok bs by simp
    from alloc_in_free [OF ok' aw(1) ac] obtain s' c' ys' where
      s': "place (word_at ?base (1 + total_words xs)) (of_nat ?a) s = Some s'"
      "heap_ok s' (xs @ (c', True) # ys')" "?a \<le> c'"
      "mem_max_addr s' = mem_max_addr s" "heap_listp s' = heap_listp s"
      "set (used_blocks 1 (xs @ (c', True) # ys'))
         = insert (1 + total_words xs, c') (set (used_blocks 1 (xs @ (c, False) # ys)))"
      "\<forall>(k, n) \<in> set (used_blocks 1 (xs @ (c, False) # ys)).
         k + n \<le> 1 + total_words xs \<or> 1 + total_words xs + c' \<le> k"
      "payloads_kept ?base (xs @ (c, False) # ys) (mem s) (mem s')"
      by blast
    have run: "mm_malloc sz s = Some (word_at ?base (2 + total_words xs), s')"
      using Some ff False r0' s'(1)
      by (simp add: mm_malloc_def word_at_plus_4)
    have lay': "layout_ok s (xs @ (c, False) # ys)" using lay bs by simp
    have nz: "word_at ?base (2 + total_words xs) \<noteq> 0"
      by (rule layout_word_at_nonzero [OF lay']) (use layout_block(3) [OF lay'] in simp_all)
    have sz: "unat sz + 8 \<le> 4 * c'" using aw(3) s'(3) by linarith
    define r where "r = word_at ?base (2 + total_words xs)"
    have "\<exists>xs c ys. heap_ok s' (xs @ (c, True) # ys)
                   \<and> r = word_at ?base (2 + total_words xs)
                   \<and> unat sz + 8 \<le> 4 * c
                   \<and> set (used_blocks 1 (xs @ (c, True) # ys))
                       = insert (1 + total_words xs, c) (set (used_blocks 1 bs))
                   \<and> (\<forall>(k, n) \<in> set (used_blocks 1 bs).
                         k + n \<le> 1 + total_words xs \<or> 1 + total_words xs + c \<le> k)
                   \<and> payloads_kept ?base bs (mem s) (mem s')"
      using s'(2,6,7,8) sz unfolding bs r_def by blast
    then show ?thesis
      using run [folded r_def] nz [folded r_def] s'(4,5) Some ff False
      by (simp del: used_blocks.simps)
  next
    case True
    let ?w = "max ?a 128"
    have w: "8 \<le> ?w" "?w < 2 ^ 62" using aw by simp_all
    have ext: "max_sz aw CHUNKSIZE = of_nat ?w"
      using max_sz_of_nat [OF a64] by simp
    show ?thesis
    proof (cases "unat (mem_brk s) + 4 * ?w \<le> unat (mem_max_addr s)")
      case False
      then have "extend_heap (of_nat ?w) s = Some (0, s)"
        using extend_heap_full [OF ok w] by simp
      then have "mm_malloc sz s = Some (0, s)"
        using Some ff True ext by (simp add: mm_malloc_def)
      then show ?thesis using Some ff True False by simp
    next
      case room: True
      let ?xs = "fst (absorb_prev bs)" and ?p = "snd (absorb_prev bs)"
      let ?j = "1 + total_words ?xs"
      from extend_heap_full [OF ok w] room obtain s1 where
        s1: "extend_heap (of_nat ?w) s = Some (word_at ?base ?j, s1)"
        "heap_ok s1 (coalesce_blocks bs ?w [])"
        "mem_max_addr s1 = mem_max_addr s" "heap_listp s1 = heap_listp s"
        "payloads_kept ?base bs (mem s) (mem s1)"
        by auto
      have cb: "coalesce_blocks bs ?w [] = ?xs @ (?p + ?w, False) # []"
        by (simp add: coalesce_blocks_split absorb_next_def)
      have ok1: "heap_ok s1 (?xs @ (?p + ?w, False) # [])" using s1(2) cb by simp
      have lay1: "layout_ok s1 (?xs @ (?p + ?w, False) # [])" using ok1 by (simp add: heap_ok_def)
      have le: "?a \<le> ?p + ?w" by simp
      from alloc_in_free [OF ok1 aw(1) le] obtain s' c' ys' where
        s': "place (word_at (heap_listp s1 - 4) ?j) (of_nat ?a) s1 = Some s'"
        "heap_ok s' (?xs @ (c', True) # ys')" "?a \<le> c'"
        "mem_max_addr s' = mem_max_addr s1" "heap_listp s' = heap_listp s1"
        "set (used_blocks 1 (?xs @ (c', True) # ys'))
           = insert (?j, c') (set (used_blocks 1 (?xs @ (?p + ?w, False) # [])))"
        "\<forall>(k, n) \<in> set (used_blocks 1 (?xs @ (?p + ?w, False) # [])).
           k + n \<le> ?j \<or> ?j + c' \<le> k"
        "payloads_kept (heap_listp s1 - 4) (?xs @ (?p + ?w, False) # []) (mem s1) (mem s')"
        by blast
      have ub: "set (used_blocks 1 (?xs @ (?p + ?w, False) # [])) = set (used_blocks 1 bs)"
        using used_blocks_free_tail [of 1 ?xs "?p + ?w"] used_blocks_absorb_prev [of 1 bs]
        by simp
      have nz0: "word_at ?base ?j \<noteq> 0"
        using layout_word_at_nonzero [OF lay1, of ?j] s1(4) by simp
      have nz: "word_at ?base (2 + total_words ?xs) \<noteq> 0"
        using layout_word_at_nonzero [OF lay1, of "2 + total_words ?xs"] s1(4) by simp
      have run: "mm_malloc sz s = Some (word_at ?base (2 + total_words ?xs), s')"
        using Some ff True ext s1(1,4) nz0 s'(1)
        by (simp add: mm_malloc_def word_at_plus_4)
      have sz: "unat sz + 8 \<le> 4 * c'" using aw(3) s'(3) by linarith
      have kept: "payloads_kept ?base bs (mem s) (mem s')"
        by (rule payloads_kept_trans [OF s1(5) s'(8) [unfolded s1(4)]]) (use ub in blast)
      define r where "r = word_at ?base (2 + total_words ?xs)"
      have "\<exists>xs c ys. heap_ok s' (xs @ (c, True) # ys)
                   \<and> r = word_at ?base (2 + total_words xs)
                   \<and> unat sz + 8 \<le> 4 * c
                   \<and> set (used_blocks 1 (xs @ (c, True) # ys))
                       = insert (1 + total_words xs, c) (set (used_blocks 1 bs))
                   \<and> (\<forall>(k, n) \<in> set (used_blocks 1 bs).
                         k + n \<le> 1 + total_words xs \<or> 1 + total_words xs + c \<le> k)
                   \<and> payloads_kept ?base bs (mem s) (mem s')"
        using s'(2,6,7) sz kept unfolding ub r_def by blast
      then show ?thesis
        using run [folded r_def] nz [folded r_def] s'(4,5) s1(3,4) Some ff True room
        by (simp del: used_blocks.simps)
    qed
  qed
qed

lemma mem_sbrk_fails:
  assumes lay: "layout_ok s bs" and w: "w < 2 ^ 62"
  shows "(fst (mem_sbrk (of_nat w * WSIZE) s) = 0)
           = (unat (mem_max_addr s) < unat (mem_brk s) + 4 * w)"
proof -
  have "unat (of_nat w * WSIZE :: size_t) = 4 * w"
    using w by (simp add: WSIZE_def unat_word_ariths unat_of_nat)
  moreover have "mem_brk s \<noteq> 0"
    using lay by (auto simp: layout_ok_def Let_def)
  ultimately show ?thesis by (auto simp: mem_sbrk_def)
qed

lemma full_heap_ok: "heap_ok full_heap [(128, True)]"
  unfolding full_heap_def by (simp add: heap_ok_defs)

section \<open>Moving payload bytes\<close>

lemma off_less:
  assumes "x < 2 ^ 63" "y < 2 ^ 63" "n < 2 ^ 63"
  shows "((base + of_nat x) - (base + of_nat y) < (of_nat n :: 64 word)) = (y \<le> x \<and> x < y + n)"
proof -
  have e: "(base + of_nat x) - (base + of_nat y) = (of_nat x :: 64 word) - of_nat y" by simp
  have n64: "n < 2 ^ 64" using assms(3) by simp
  show ?thesis
  proof (cases "y \<le> x")
    case True
    have d: "(of_nat x :: 64 word) - of_nat y = of_nat (x - y)" by (rule of_nat_sub_64 [OF True])
    have "x - y < 2 ^ 64" using assms(1) by simp
    from of_nat_less_64 [OF this n64] show ?thesis
      unfolding e d using True by auto
  next
    case False
    then have le: "x \<le> y" and lt: "0 < y - x" by simp_all
    have "(of_nat y :: 64 word) - of_nat x = of_nat (y - x)" by (rule of_nat_sub_64 [OF le])
    then have "(of_nat x :: 64 word) - of_nat y = - of_nat (y - x)" by (metis minus_diff_eq)
    moreover have "unat (- (of_nat (y - x) :: 64 word)) = 2 ^ 64 - (y - x)"
      by (rule unat_neg_of_nat) (use lt assms(2) in simp_all)
    moreover have "y - x \<le> 2 ^ 63" using assms(2) by simp
    moreover have "unat (of_nat n :: 64 word) = n" by (rule unat_of_nat_64 [OF n64])
    ultimately show ?thesis
      unfolding e using False assms(3) by (simp add: word_less_nat_alt)
  qed
qed

lemma memmove_byte:
  assumes "x < 2 ^ 63" "D < 2 ^ 63" "n < 2 ^ 63"
  shows "memmove (base + of_nat D) (base + of_nat S) (of_nat n) m (base + of_nat x) =
           (if D \<le> x \<and> x < D + n then m (base + of_nat (S + (x - D))) else m (base + of_nat x))"
proof (cases "D \<le> x \<and> x < D + n")
  case True
  have a: "(base + of_nat x) - (base + of_nat D) < (of_nat n :: 64 word)"
    using off_less [OF assms, of base] True by simp
  have b: "base + of_nat S + (base + of_nat x - (base + of_nat D)) = base + of_nat (S + (x - D))"
    using True by (simp add: of_nat_diff)
  have "memmove (base + of_nat D) (base + of_nat S) (of_nat n) m (base + of_nat x)
          = m (base + of_nat S + (base + of_nat x - (base + of_nat D)))"
    unfolding memmove_def using a by (simp only: if_True)
  then show ?thesis using True by (simp only: b if_True simp_thms)
next
  case False
  have a: "\<not> (base + of_nat x) - (base + of_nat D) < (of_nat n :: 64 word)"
    using off_less [OF assms, of base] False by simp
  have "memmove (base + of_nat D) (base + of_nat S) (of_nat n) m (base + of_nat x)
          = m (base + of_nat x)"
    unfolding memmove_def using a by (simp only: if_False)
  then show ?thesis using False by (simp only: if_False simp_thms)
qed

lemma word_at_bytes: "word_at base k = base + of_nat (4 * k)"
  by (simp add: word_at_def)

lemma load_tag_bytes_cong:
  assumes "\<And>d. d < 4 \<Longrightarrow> m' (base + of_nat (4 * i + d)) = m (base + of_nat (4 * i + d))"
  shows "load_tag m' (word_at base i) = load_tag m (word_at base i)"
proof -
  have "m' (word_at base i + of_nat d) = m (word_at base i + of_nat d)" if "d < 4" for d
    using assms [OF that] by (simp add: word_at_bytes add.assoc)
  from this [of 0] this [of 1] this [of 2] this [of 3]
  show ?thesis by (simp add: load_tag_def load32_def)
qed

text \<open>A store that differs from the store of a well-formed heap only in the payload of
  one allocated block gives a well-formed heap with the same blocks.\<close>

lemma layout_payload_frame:
  assumes lay: "layout_ok s (xs @ (c, True) # ys)"
    and frame: "\<And>x. x < 4 * (2 + total_words xs) \<or> 4 * (total_words xs + c) \<le> x \<Longrightarrow>
                  x < 2 ^ 33 \<Longrightarrow>
                  m' (heap_listp s - 4 + of_nat x) = mem s (heap_listp s - 4 + of_nat x)"
  shows "layout_ok (s\<lparr>mem := m'\<rparr>) (xs @ (c, True) # ys)"
proof -
  let ?base = "heap_listp s - 4"
  let ?k = "1 + total_words xs"
  note blk = layout_block [OF lay]
  have bound: "total_words (xs @ (c, True) # ys) + 2 \<le> 2 ^ 30" by (rule layout_bound [OF lay])
  have tagsame: "load_tag m' (word_at ?base i) = load_tag (mem s) (word_at ?base i)"
    if "i \<le> ?k \<or> ?k + c - 1 \<le> i" "i \<le> total_words (xs @ (c, True) # ys) + 1" for i
    by (rule load_tag_bytes_cong, rule frame) (use that blk(3) bound in auto)
  have "layout_ok (s\<lparr>mem := m'\<rparr>) (xs @ [(c, True)] @ ys)"
  proof (rule layout_replace [where mid = "[(c, True)]"])
    show "layout_ok s (xs @ [(c, True)] @ ys)" using lay by simp
    show "total_words [(c, True)] = total_words [(c, True)]" by simp
    show "list_all (\<lambda>(n, u). 8 \<le> n) [(c, True)]" using blk(3) by simp
    show "load_tag (mem (s\<lparr>mem := m'\<rparr>)) (word_at ?base i) = load_tag (mem s) (word_at ?base i)"
      if "i \<le> total_words (xs @ [(c, True)] @ ys) + 1"
        "i < 1 + total_words xs \<or> 1 + total_words xs + total_words [(c, True)] \<le> i" for i
      using tagsame [of i] that by auto
    show "blocks_at (mem (s\<lparr>mem := m'\<rparr>)) ?base (1 + total_words xs) [(c, True)]"
      using tagsame [of ?k] tagsame [of "?k + c - 1"] blk(1,2,3) by simp
  qed simp_all
  then show ?thesis by simp
qed

lemma heap_ok_payload_frame:
  assumes ok: "heap_ok s (xs @ (c, True) # ys)"
    and frame: "\<And>x. x < 4 * (2 + total_words xs) \<or> 4 * (total_words xs + c) \<le> x \<Longrightarrow>
                  x < 2 ^ 33 \<Longrightarrow>
                  m' (heap_listp s - 4 + of_nat x) = mem s (heap_listp s - 4 + of_nat x)"
  shows "heap_ok (s\<lparr>mem := m'\<rparr>) (xs @ (c, True) # ys)"
  using ok layout_payload_frame [of s xs c ys m'] frame
  by (simp add: heap_ok_def lists_ok_def all_free_def)

section \<open>Resize on a well-formed heap\<close>

lemma le_of_nat_64: "m < 2 ^ 64 \<Longrightarrow> ((aw :: 64 word) \<le> of_nat m) = (unat aw \<le> m)"
  by (simp add: word_le_nat_alt unat_of_nat_64)

lemma payload_size_word:
  assumes "8 \<le> n"
  shows "(of_nat n :: 64 word) * WSIZE - 2 * 4 = of_nat (4 * n - 8)"
proof -
  have "(of_nat (4 * n - 8) :: 64 word) = of_nat (4 * n) - of_nat 8"
    using assms by (simp add: of_nat_diff del: of_nat_mult)
  then show ?thesis by (simp add: WSIZE_def mult.commute)
qed

lemma realloc_entry:
  assumes ok: "heap_ok s (xs @ (n, True) # ys)"
  shows "word_at (heap_listp s - 4) (2 + total_words xs) \<noteq> 0"
    and "word_at (heap_listp s - 4) (2 + total_words xs) - 4 = word_at (heap_listp s - 4) (1 + total_words xs)"
    and "word_at (heap_listp s - 4) (1 + total_words xs) \<noteq> 0"
    and "blk_size s (word_at (heap_listp s - 4) (1 + total_words xs)) = of_nat n"
    and "(of_nat n :: 64 word) * WSIZE - 2 * 4 = of_nat (4 * n - 8)"
    and "(of_nat (4 * n - 8) :: 64 word) \<noteq> 0"
    and "next_blk s (word_at (heap_listp s - 4) (1 + total_words xs))
           = word_at (heap_listp s - 4) (1 + total_words xs + n)"
    and "word_at (heap_listp s - 4) (1 + total_words xs + n) \<noteq> 0"
proof -
  let ?base = "heap_listp s - 4"
  have lay: "layout_ok s (xs @ (n, True) # ys)" using ok by (simp add: heap_ok_def)
  note blk = layout_block [OF lay]
  show "word_at ?base (2 + total_words xs) \<noteq> 0"
    by (rule layout_word_at_nonzero [OF lay]) (use blk(3) in simp_all)
  show "word_at ?base (2 + total_words xs) - 4 = word_at ?base (1 + total_words xs)"
    using word_at_minus_4 [of "2 + total_words xs" ?base] by simp
  show "word_at ?base (1 + total_words xs) \<noteq> 0"
    by (rule layout_word_at_nonzero [OF lay]) simp_all
  show "blk_size s (word_at ?base (1 + total_words xs)) = of_nat n"
    by (rule heap_ok_block(1) [OF ok])
  show "(of_nat n :: 64 word) * WSIZE - 2 * 4 = of_nat (4 * n - 8)"
    by (rule payload_size_word [OF blk(3)])
  have "4 * n - 8 < 2 ^ 64" "0 < 4 * n - 8" using blk(3,4) by simp_all
  then show "(of_nat (4 * n - 8) :: 64 word) \<noteq> 0"
    using of_nat_eq_64 [of "4 * n - 8" 0] by simp
  show "next_blk s (word_at ?base (1 + total_words xs)) = word_at ?base (1 + total_words xs + n)"
    by (rule next_blk_tag [OF blk(1) blk(4)])
  show "word_at ?base (1 + total_words xs + n) \<noteq> 0"
    by (rule layout_word_at_nonzero [OF lay]) simp_all
qed

lemma prev_free_block:
  assumes lay: "layout_ok s (xs' @ (p, False) # (n, u) # ys)"
  shows "prev_blk s (word_at (heap_listp s - 4) (1 + total_words xs' + p))
           = Some (word_at (heap_listp s - 4) (1 + total_words xs'))"
    and "blk_size s (word_at (heap_listp s - 4) (1 + total_words xs')) = of_nat p"
proof -
  let ?base = "heap_listp s - 4"
  let ?k = "1 + total_words xs' + p"
  note pblk = layout_block [OF lay]
  have "load_tag (mem s) (word_at ?base (?k - 1)) = tag False p"
    using pblk(2) by simp
  from prev_blk_tag [of s ?base ?k False p] this pblk(3,4)
  show "prev_blk s (word_at ?base ?k) = Some (word_at ?base (1 + total_words xs'))"
    by simp
  show "blk_size s (word_at ?base (1 + total_words xs')) = of_nat p"
    by (rule blk_size_tag [OF pblk(1,4)])
qed

lemma next_free_block:
  assumes lay: "layout_ok s (xs @ (n, u) # (q, False) # ys')"
  shows "blk_size s (word_at (heap_listp s - 4) (1 + total_words xs + n)) = of_nat q"
proof -
  have "layout_ok s ((xs @ [(n, u)]) @ (q, False) # ys')" using lay by simp
  from layout_block(1,4) [OF this] show ?thesis
    by (simp add: blk_size_tag add.assoc)
qed

text \<open>Resize falls through to allocate, copy, free exactly when no neighbour is free or
  the block and its free neighbours together are too small; the branch for the block at
  the end of the heap is never taken, since the address after a block is never null.\<close>

lemma realloc_falls_back:
  assumes ok: "heap_ok s (xs @ (n, True) # ys)" and sz: "sz \<noteq> 0"
    and ra: "realloc_awords sz = Some aw"
    and cond: "(snd (absorb_prev xs) = 0 \<and> fst (absorb_next ys) = 0)
               \<or> snd (absorb_prev xs) + n + fst (absorb_next ys) < unat aw"
  shows "mm_realloc (word_at (heap_listp s - 4) (2 + total_words xs)) sz s =
           realloc_fallback (word_at (heap_listp s - 4) (2 + total_words xs)) sz
             (of_nat (4 * n - 8)) s"
proof -
  let ?base = "heap_listp s - 4"
  let ?bp = "word_at ?base (1 + total_words xs)"
  have lay: "layout_ok s (xs @ (n, True) # ys)" using ok by (simp add: heap_ok_def)
  note e = realloc_entry [OF ok]
  note nt = neighbour_tags [OF lay]
  note blk = layout_block [OF lay]
  have bound: "total_words (xs @ (n, True) # ys) + 2 \<le> 2 ^ 30" by (rule layout_bound [OF lay])
  show ?thesis
  proof (cases xs rule: absorb_prev_cases)
    case used
    show ?thesis
    proof (cases ys rule: absorb_next_cases)
      case used': used
      show ?thesis
        using sz ra e nt used(2) used'(2)
        by (simp add: mm_realloc_def Let_def)
    next
      case (free ys' q)
      have lay2: "layout_ok s (xs @ (n, True) # (q, False) # ys')" using lay free(1) by simp
      have q0: "q \<noteq> 0" using layout_block(3) [of s "xs @ [(n, True)]" q False ys'] lay2 by simp
      have "n + q < 2 ^ 64" by (rule lt64) (use bound free(1) in simp)
      then have "\<not> aw \<le> of_nat q + of_nat n"
        using le_of_nat_64 [of "n + q" aw] cond used(2) free(2) q0 by (simp add: add.commute)
      then show ?thesis
        using sz ra e nt used(2) free(2) next_free_block [OF lay2]
        by (simp add: mm_realloc_def Let_def)
    qed
  next
    case (free xs' p)
    have lay1: "layout_ok s (xs' @ (p, False) # (n, True) # ys)" using lay free(1) by simp
    have p0: "p \<noteq> 0" using layout_block(3) [OF lay1] by simp
    have k: "1 + total_words xs = 1 + total_words xs' + p" using free(1) by simp
    note pb = prev_free_block [OF lay1, folded k]
    show ?thesis
    proof (cases ys rule: absorb_next_cases)
      case used
      have "p + n < 2 ^ 64" by (rule lt64) (use bound free(1) in simp)
      then have "\<not> aw \<le> of_nat p + of_nat n"
        using le_of_nat_64 [of "p + n" aw] cond used(2) free(2) p0 by simp
      then show ?thesis
        using sz ra e nt used(2) free(2) pb p0
        by (simp add: mm_realloc_def Let_def)
    next
      case free': (free ys' q)
      have lay2: "layout_ok s (xs @ (n, True) # (q, False) # ys')" using lay free'(1) by simp
      have q0: "q \<noteq> 0" using layout_block(3) [of s "xs @ [(n, True)]" q False ys'] lay2 by simp
      have "n + q < 2 ^ 64" "p + n + q < 2 ^ 64"
        by (rule lt64, use bound free(1) free'(1) in simp)+
      then have "\<not> aw \<le> of_nat q + of_nat n" "\<not> aw \<le> of_nat p + of_nat n + of_nat q"
        using le_of_nat_64 [of "n + q" aw] le_of_nat_64 [of "p + n + q" aw]
          cond free'(2) free(2) p0
        by (simp_all add: add.commute)
      then show ?thesis
        using sz ra e nt free'(2) free(2) pb p0 q0 next_free_block [OF lay2]
        by (simp add: mm_realloc_def Let_def)
    qed
  qed
qed

lemma memmove_same [simp]: "memmove a a n m = m"
  by (rule ext) (simp add: memmove_def)

lemma mem_update_same [simp]: "s\<lparr>mem := mem s\<rparr> = (s :: heap)"
  by simp

text \<open>The end of the three in-place cases of resize: the run \<open>mid\<close> of blocks, which holds
  the old block of \<open>n\<close> words at word \<open>k\<close>, becomes one allocated block, and the old payload
  is moved to its start.\<close>

lemma inplace_finish:
  assumes lay: "layout_ok s (xs @ mid @ ys)"
    and tot: "total_words mid = N" and n: "8 \<le> n"
    and inside: "1 + total_words xs \<le> k" "k + n \<le> 1 + total_words xs + N"
    and lists: "lists_ok s (set (free_blocks (heap_listp s - 4) 1 (xs @ (N, True) # ys)))"
  shows "heap_ok
           ((put_block (heap_listp s - 4) (1 + total_words xs) N True s)
             \<lparr>mem := memmove (word_at (heap_listp s - 4) (2 + total_words xs))
                       (word_at (heap_listp s - 4) (k + 1)) (of_nat (4 * n - 8))
                       (mem (put_block (heap_listp s - 4) (1 + total_words xs) N True s))\<rparr>)
           (xs @ (N, True) # ys)"
    and "\<forall>i < 4 * n - 8.
           memmove (word_at (heap_listp s - 4) (2 + total_words xs))
                   (word_at (heap_listp s - 4) (k + 1)) (of_nat (4 * n - 8))
                   (mem (put_block (heap_listp s - 4) (1 + total_words xs) N True s))
                   (word_at (heap_listp s - 4) (2 + total_words xs) + of_nat i)
             = mem s (word_at (heap_listp s - 4) (k + 1) + of_nat i)"
proof -
  let ?base = "heap_listp s - 4"
  let ?j = "1 + total_words xs"
  let ?s2 = "put_block ?base ?j N True s"
  let ?m = "memmove (word_at ?base (?j + 1)) (word_at ?base (k + 1)) (of_nat (4 * n - 8)) (mem ?s2)"
  have bound: "total_words (xs @ mid @ ys) + 2 \<le> 2 ^ 30" by (rule layout_bound [OF lay])
  have N: "8 \<le> N" using n inside by simp
  have lay2: "layout_ok ?s2 (xs @ (N, True) # ys)"
    by (rule layout_put_block [OF lay tot N])
  have ok2: "heap_ok ?s2 (xs @ (N, True) # ys)"
    using lay2 lists by (simp add: heap_ok_def)
  have mv: "?m (?base + of_nat x) =
              (if 4 * (?j + 1) \<le> x \<and> x < 4 * (?j + 1) + (4 * n - 8)
               then mem ?s2 (?base + of_nat (4 * (k + 1) + (x - 4 * (?j + 1))))
               else mem ?s2 (?base + of_nat x))" if "x < 2 ^ 33" for x
    unfolding word_at_bytes
  proof (rule memmove_byte)
    show "x < 2 ^ 63" by (rule less_le_trans [OF that]) simp
    have "4 * (?j + 1) < 2 ^ 33" "4 * n - 8 < 2 ^ 33" using bound tot inside by simp_all
    then show "4 * (?j + 1) < 2 ^ 63" "4 * n - 8 < 2 ^ 63"
      by (simp_all add: less_le_trans [where y = "2 ^ 33"])
  qed
  have "heap_ok (?s2\<lparr>mem := ?m\<rparr>) (xs @ (N, True) # ys)"
  proof (rule heap_ok_payload_frame [OF ok2])
    fix x :: nat
    assume "x < 4 * (2 + total_words xs) \<or> 4 * (total_words xs + N) \<le> x" "x < 2 ^ 33"
    then show "?m (heap_listp ?s2 - 4 + of_nat x) = mem ?s2 (heap_listp ?s2 - 4 + of_nat x)"
      using mv [of x] inside n by auto
  qed
  then show "heap_ok
           (?s2\<lparr>mem := memmove (word_at ?base (2 + total_words xs))
                       (word_at ?base (k + 1)) (of_nat (4 * n - 8)) (mem ?s2)\<rparr>)
           (xs @ (N, True) # ys)"
    by (simp add: add.commute)
  have "?m (word_at ?base (?j + 1) + of_nat i) = mem s (word_at ?base (k + 1) + of_nat i)"
    if i: "i < 4 * n - 8" for i
  proof -
    have x: "4 * (?j + 1) + i < 2 ^ 33" using bound tot inside i by simp
    have c: "4 * (?j + 1) \<le> 4 * (?j + 1) + i \<and> 4 * (?j + 1) + i < 4 * (?j + 1) + (4 * n - 8)"
      using i by simp
    have "?m (?base + of_nat (4 * (?j + 1) + i)) =
            mem ?s2 (?base + of_nat (4 * (k + 1) + (4 * (?j + 1) + i - 4 * (?j + 1))))"
      unfolding mv [OF x] using c by (simp only: if_True simp_thms)
    then have "?m (?base + of_nat (4 * (?j + 1) + i)) = mem ?s2 (?base + of_nat (4 * (k + 1) + i))"
      by (simp only: add_diff_cancel_left')
    then have "?m (word_at ?base (?j + 1) + of_nat i) = mem ?s2 (word_at ?base (k + 1) + of_nat i)"
      by (simp add: word_at_bytes add.assoc)
    also have "\<dots> = mem s (word_at ?base (k + 1) + of_nat i)"
    proof (rule put_block_byte)
      have b: "?j < 2 ^ 62" "?j + N - 1 < 2 ^ 62" "k + n < 2 ^ 62"
        by (rule lt62, use bound tot inside in simp)+
      have i': "i < 4 * (n - 2)" using i by simp
      show "4 \<le> word_at ?base (k + 1) + of_nat i - word_at ?base ?j"
        by (rule payload_byte_far [OF b(1) b(3) i']) (use inside in simp)
      show "4 \<le> word_at ?base (k + 1) + of_nat i - word_at ?base (?j + N - 1)"
        by (rule payload_byte_far [OF b(2) b(3) i']) (use inside in arith)
    qed
    finally show ?thesis .
  qed
  then show "\<forall>i < 4 * n - 8.
           memmove (word_at ?base (2 + total_words xs))
                   (word_at ?base (k + 1)) (of_nat (4 * n - 8)) (mem ?s2)
                   (word_at ?base (2 + total_words xs) + of_nat i)
             = mem s (word_at ?base (k + 1) + of_nat i)"
    by (simp add: add.commute)
qed

lemma absorb_simps [simp]:
  "absorb_prev (xs @ [(p, False)]) = (xs, p)"
  "absorb_next ((q, False) # ys) = (q, ys)"
  by (simp_all add: absorb_prev_def absorb_next_def)

text \<open>Case 2 of resize: the successor is free and large enough.\<close>

lemma realloc_absorb_next:
  assumes ok: "heap_ok s (xs @ (n, True) # (q, False) # ys')" and sz: "sz \<noteq> 0"
    and ra: "realloc_awords sz = Some aw" and fit: "unat aw \<le> n + q"
  shows "\<exists>s'. mm_realloc (word_at (heap_listp s - 4) (2 + total_words xs)) sz s
                = Some (word_at (heap_listp s - 4) (2 + total_words xs), s')
            \<and> heap_ok s' (xs @ (n + q, True) # ys')
            \<and> mem_brk s' = mem_brk s \<and> mem_max_addr s' = mem_max_addr s
            \<and> heap_listp s' = heap_listp s
            \<and> tag_writes s' =
                Header_and_footer (word_at (heap_listp s - 4) (1 + total_words xs))
                  (tag True (n + q)) # tag_writes s
            \<and> (\<forall>i < 4 * n - 8.
                  mem s' (word_at (heap_listp s - 4) (2 + total_words xs) + of_nat i)
                    = mem s (word_at (heap_listp s - 4) (2 + total_words xs) + of_nat i))"
proof -
  let ?base = "heap_listp s - 4"
  let ?k = "1 + total_words xs"
  let ?bp = "word_at ?base ?k"
  let ?ptr = "word_at ?base (2 + total_words xs)"
  let ?ys = "(q, False) # ys'"
  let ?F0 = "set (free_blocks ?base 1 (xs @ (n, True) # ?ys))"
  have lay: "layout_ok s (xs @ (n, True) # ?ys)"
    and lists: "lists_ok s ?F0" using ok by (simp_all add: heap_ok_def)
  note e = realloc_entry [OF ok]
  note nt = neighbour_tags [OF lay]
  note blk = layout_block [OF lay]
  have lay2: "layout_ok s ((xs @ [(n, True)]) @ (q, False) # ys')" using lay by simp
  note nblk = layout_block [OF lay2]
  have q0: "q \<noteq> 0" using nblk(3) by simp
  have bound: "total_words (xs @ (n, True) # ?ys) + 2 \<le> 2 ^ 30" by (rule layout_bound [OF lay])
  have ones: "list_all (\<lambda>(n, u). 1 \<le> n) (xs @ [(n, True), (q, False)] @ ys')"
    using layout_min [OF lay] by simp
  let ?na = "word_at ?base (?k + n)"
  have nain: "?na \<in> ?F0" by (simp add: free_blocks_append add.assoc)
  let ?s1 = "s\<lparr>segregatedList := (\<lambda>i. remove1 ?na (segregatedList s i))\<rparr>"
  have rm: "list_remove ?na s = Some ?s1" and l1: "lists_ok ?s1 (?F0 - {?na})"
    using lists_ok_remove [OF lists nain] by simp_all
  have nsz: "blk_size s ?na = of_nat q" by (rule next_free_block [OF lay])
  have nq64: "n + q < 2 ^ 64" by (rule lt64) (use bound in simp)
  have c2: "aw \<le> of_nat q + of_nat n"
    using le_of_nat_64 [OF nq64, of aw] fit by (simp add: add.commute)
  let ?s2 = "put_block ?base ?k (n + q) True ?s1"
  have nq: "n + q < 2 ^ 30" using bound by simp
  have m2: "mark_block_used ?bp (ucast (of_nat q + of_nat n :: size_t)) ?s1 = ?s2"
    using mark_block_used_put [of "n + q" ?k ?base ?s1] nq by (simp add: add.commute)
  have Fn: "set (free_blocks ?base 1 (xs @ [(n + q, True)] @ ys')) = ?F0 - {?na}"
  proof -
    have "?na \<notin> set (free_blocks ?base 1 xs)"
      by (rule free_blocks_notin)
         (use ones lt62 [of "?k + n"] lt62 [of "1 + total_words xs"] bound in simp_all)
    moreover have "?na \<notin> set (free_blocks ?base (?k + n + q) ys')"
      by (rule free_blocks_notin)
         (use ones lt62 [of "?k + n"] lt62 [of "?k + n + q + total_words ys'"] bound q0 in simp_all)
    ultimately show ?thesis by (auto simp: free_blocks_append add.assoc)
  qed
  have lay1: "layout_ok ?s1 (xs @ [(n, True), (q, False)] @ ys')" using lay by simp
  have l1': "lists_ok ?s1 (set (free_blocks (heap_listp ?s1 - 4) 1 (xs @ (n + q, True) # ys')))"
    using l1 Fn by simp
  note fin = inplace_finish [OF lay1 _ blk(3) _ _ l1', where k = ?k]
  have ok2: "heap_ok ?s2 (xs @ (n + q, True) # ys')"
    using fin(1) by (simp add: add.commute)
  have data: "\<forall>i < 4 * n - 8. mem ?s2 (?ptr + of_nat i) = mem s (?ptr + of_nat i)"
    using fin(2) by (simp add: add.commute)
  have pp: "?bp + 4 = ?ptr" by (simp add: word_at_plus_4)
  have "mm_realloc ?ptr sz s = Some (?ptr, ?s2)"
    using sz ra e nt q0 rm nsz c2 m2 pp
    by (simp add: mm_realloc_def Let_def)
  then show ?thesis using ok2 data by simp
qed


text \<open>Case 1 of resize: the predecessor is free, the successor is not, and the two blocks
  together are large enough.\<close>

lemma realloc_absorb_prev:
  assumes ok: "heap_ok s (xs' @ (p, False) # (n, True) # ys)" and sz: "sz \<noteq> 0"
    and ra: "realloc_awords sz = Some aw" and nu: "fst (absorb_next ys) = 0"
    and fit: "unat aw \<le> p + n"
  shows "\<exists>s'. mm_realloc (word_at (heap_listp s - 4) (2 + total_words xs' + p)) sz s
                = Some (word_at (heap_listp s - 4) (2 + total_words xs'), s')
            \<and> heap_ok s' (xs' @ (p + n, True) # ys)
            \<and> mem_brk s' = mem_brk s \<and> mem_max_addr s' = mem_max_addr s
            \<and> heap_listp s' = heap_listp s
            \<and> tag_writes s' =
                Header_and_footer (word_at (heap_listp s - 4) (1 + total_words xs'))
                  (tag True (p + n)) # tag_writes s
            \<and> (\<forall>i < 4 * n - 8.
                  mem s' (word_at (heap_listp s - 4) (2 + total_words xs') + of_nat i)
                    = mem s (word_at (heap_listp s - 4) (2 + total_words xs' + p) + of_nat i))"
proof -
  let ?base = "heap_listp s - 4"
  let ?xs = "xs' @ [(p, False)]"
  let ?j = "1 + total_words xs'"
  let ?k = "1 + total_words xs' + p"
  let ?pa = "word_at ?base ?j"
  let ?bp = "word_at ?base ?k"
  let ?ptr = "word_at ?base (2 + total_words xs' + p)"
  let ?F0 = "set (free_blocks ?base 1 (xs' @ (p, False) # (n, True) # ys))"
  have ok': "heap_ok s (?xs @ (n, True) # ys)" using ok by simp
  have lay1: "layout_ok s (xs' @ (p, False) # (n, True) # ys)"
    and lists: "lists_ok s ?F0" using ok by (simp_all add: heap_ok_def)
  have lay: "layout_ok s (?xs @ (n, True) # ys)" using lay1 by simp
  have k: "1 + total_words ?xs = ?k" "2 + total_words ?xs = 2 + total_words xs' + p" by simp_all
  note e = realloc_entry [OF ok', unfolded k]
  note nt = neighbour_tags [OF lay, unfolded k]
  note blk = layout_block [OF lay, unfolded k]
  note pblk = layout_block [OF lay1]
  note pb = prev_free_block [OF lay1]
  have p0: "p \<noteq> 0" using pblk(3) by simp
  have bound: "total_words (xs' @ (p, False) # (n, True) # ys) + 2 \<le> 2 ^ 30"
    by (rule layout_bound [OF lay1])
  have ones: "list_all (\<lambda>(n, u). 1 \<le> n) (xs' @ [(p, False), (n, True)] @ ys)"
    using layout_min [OF lay1] by simp
  have pain: "?pa \<in> ?F0" by (simp add: free_blocks_append)
  let ?s1 = "s\<lparr>segregatedList := (\<lambda>i. remove1 ?pa (segregatedList s i))\<rparr>"
  have rm: "list_remove ?pa s = Some ?s1" and l1: "lists_ok ?s1 (?F0 - {?pa})"
    using lists_ok_remove [OF lists pain] by simp_all
  have nxp: "next_blk s ?pa = ?bp"
    using next_blk_tag [OF pblk(1) pblk(4)] by simp
  have pn64: "p + n < 2 ^ 64" by (rule lt64) (use bound in simp)
  have c1: "aw \<le> of_nat p + of_nat n"
    using le_of_nat_64 [OF pn64, of aw] fit by simp
  let ?s2 = "put_block ?base ?j (p + n) True ?s1"
  have pn: "p + n < 2 ^ 30" using bound by simp
  have m2: "mark_block_used ?pa (ucast (of_nat n + of_nat p :: size_t)) ?s1 = ?s2"
    using mark_block_used_put [of "p + n" ?j ?base ?s1] pn by (simp add: add.commute)
  have Fn: "set (free_blocks ?base 1 (xs' @ [(p + n, True)] @ ys)) = ?F0 - {?pa}"
  proof -
    have "?pa \<notin> set (free_blocks ?base 1 xs')"
      by (rule free_blocks_notin) (use ones lt62 [of ?j] bound in simp_all)
    moreover have "?pa \<notin> set (free_blocks ?base (?k + n) ys)"
      by (rule free_blocks_notin)
         (use ones lt62 [of ?j] lt62 [of "?k + n + total_words ys"] bound p0 in simp_all)
    ultimately show ?thesis by (auto simp: free_blocks_append add.assoc)
  qed
  have lay1': "layout_ok ?s1 (xs' @ [(p, False), (n, True)] @ ys)" using lay1 by simp
  have l1': "lists_ok ?s1 (set (free_blocks (heap_listp ?s1 - 4) 1 (xs' @ (p + n, True) # ys)))"
    using l1 Fn by simp
  note fin = inplace_finish [OF lay1' _ blk(3) _ _ l1', where k = ?k]
  let ?m = "memmove (word_at ?base (2 + total_words xs')) ?ptr (of_nat (4 * n - 8)) (mem ?s2)"
  have ok3: "heap_ok (?s2\<lparr>mem := ?m\<rparr>) (xs' @ (p + n, True) # ys)"
    using fin(1) by (simp add: add.commute add.left_commute)
  have data: "\<forall>i < 4 * n - 8. ?m (word_at ?base (2 + total_words xs') + of_nat i)
                = mem s (?ptr + of_nat i)"
    using fin(2) by (simp add: add.commute add.left_commute)
  have pp: "?pa + 4 = word_at ?base (2 + total_words xs')" by (simp add: word_at_plus_4)
  have nf: "\<not> blk_free s (word_at ?base (?k + n))" using nt(2) e(7) nu by simp
  have "mm_realloc ?ptr sz s = Some (word_at ?base (2 + total_words xs'), ?s2\<lparr>mem := ?m\<rparr>)"
    using sz ra e nt(1) nf p0 pb rm nxp c1 m2 pp
    by (simp add: mm_realloc_def Let_def)
  then show ?thesis using ok3 data by simp
qed

text \<open>Case 4 of resize: both neighbours are free, the successor alone is not large enough,
  the three blocks together are.\<close>

lemma realloc_absorb_both:
  assumes ok: "heap_ok s (xs' @ (p, False) # (n, True) # (q, False) # ys')" and sz: "sz \<noteq> 0"
    and ra: "realloc_awords sz = Some aw"
    and nofit: "n + q < unat aw" and fit: "unat aw \<le> p + n + q"
  shows "\<exists>s'. mm_realloc (word_at (heap_listp s - 4) (2 + total_words xs' + p)) sz s
                = Some (word_at (heap_listp s - 4) (2 + total_words xs'), s')
            \<and> heap_ok s' (xs' @ (p + n + q, True) # ys')
            \<and> mem_brk s' = mem_brk s \<and> mem_max_addr s' = mem_max_addr s
            \<and> heap_listp s' = heap_listp s
            \<and> tag_writes s' =
                Header_and_footer (word_at (heap_listp s - 4) (1 + total_words xs'))
                  (tag True (p + n + q)) # tag_writes s
            \<and> (\<forall>i < 4 * n - 8.
                  mem s' (word_at (heap_listp s - 4) (2 + total_words xs') + of_nat i)
                    = mem s (word_at (heap_listp s - 4) (2 + total_words xs' + p) + of_nat i))"
proof -
  let ?base = "heap_listp s - 4"
  let ?xs = "xs' @ [(p, False)]"
  let ?ys = "(q, False) # ys'"
  let ?j = "1 + total_words xs'"
  let ?k = "1 + total_words xs' + p"
  let ?pa = "word_at ?base ?j"
  let ?bp = "word_at ?base ?k"
  let ?na = "word_at ?base (?k + n)"
  let ?ptr = "word_at ?base (2 + total_words xs' + p)"
  let ?F0 = "set (free_blocks ?base 1 (xs' @ (p, False) # (n, True) # ?ys))"
  let ?N = "p + n + q"
  have ok': "heap_ok s (?xs @ (n, True) # ?ys)" using ok by simp
  have lay1: "layout_ok s (xs' @ (p, False) # (n, True) # ?ys)"
    and lists: "lists_ok s ?F0" using ok by (simp_all add: heap_ok_def)
  have lay: "layout_ok s (?xs @ (n, True) # ?ys)" using lay1 by simp
  have k: "1 + total_words ?xs = ?k" "2 + total_words ?xs = 2 + total_words xs' + p" by simp_all
  note e = realloc_entry [OF ok', unfolded k]
  note nt = neighbour_tags [OF lay, unfolded k]
  note blk = layout_block [OF lay, unfolded k]
  note pblk = layout_block [OF lay1]
  note pb = prev_free_block [OF lay1]
  have nsz: "blk_size s ?na = of_nat q"
    using next_free_block [OF lay] by simp
  have p0: "p \<noteq> 0" using pblk(3) by simp
  have lay2: "layout_ok s ((?xs @ [(n, True)]) @ (q, False) # ys')" using lay by simp
  have q0: "q \<noteq> 0" using layout_block(3) [OF lay2] by simp
  have bound: "total_words (xs' @ (p, False) # (n, True) # ?ys) + 2 \<le> 2 ^ 30"
    by (rule layout_bound [OF lay1])
  have lt: "i < 2 ^ 62" if "i \<le> 1 + total_words (xs' @ (p, False) # (n, True) # ?ys)" for i :: nat
    by (rule lt62) (use that bound in simp)
  have ones: "list_all (\<lambda>(n, u). 1 \<le> n) (xs' @ [(p, False), (n, True), (q, False)] @ ys')"
    using layout_min [OF lay1] by simp
  have nain: "?na \<in> ?F0" by (simp add: free_blocks_append add.assoc)
  let ?s1 = "s\<lparr>segregatedList := (\<lambda>i. remove1 ?na (segregatedList s i))\<rparr>"
  have rm: "list_remove ?na s = Some ?s1" and l1: "lists_ok ?s1 (?F0 - {?na})"
    using lists_ok_remove [OF lists nain] by simp_all
  have pain: "?pa \<in> ?F0 - {?na}"
  proof -
    have "?pa \<in> ?F0" by (simp add: free_blocks_append)
    moreover have "?na \<noteq> ?pa"
      using word_at_inj [of "?k + n" ?j ?base] lt [of "?k + n"] lt [of ?j] p0 by auto
    ultimately show ?thesis by auto
  qed
  let ?s2 = "?s1\<lparr>segregatedList := (\<lambda>i. remove1 ?pa (segregatedList ?s1 i))\<rparr>"
  have rm2: "list_remove ?pa ?s1 = Some ?s2" and l2: "lists_ok ?s2 (?F0 - {?na} - {?pa})"
    using lists_ok_remove [OF l1 pain] by simp_all
  have nq64: "n + q < 2 ^ 64" and N64: "?N < 2 ^ 64"
    by (rule lt64, use bound in simp)+
  have c2: "\<not> aw \<le> of_nat q + of_nat n"
    using le_of_nat_64 [OF nq64, of aw] nofit by (simp add: add.commute)
  have c4: "aw \<le> of_nat p + of_nat n + of_nat q"
    using le_of_nat_64 [OF N64, of aw] fit by simp
  let ?s3 = "put_block ?base ?j ?N True ?s2"
  have N: "?N < 2 ^ 30" using bound by simp
  have m3: "mark_block_used ?pa (ucast (of_nat q + of_nat n + of_nat p :: size_t)) ?s2 = ?s3"
    using mark_block_used_put [of ?N ?j ?base ?s2] N by (simp add: add.commute add.left_commute)
  have "load_tag (mem ?s3) (word_at ?base (?k - 1)) = load_tag (mem s) (word_at ?base (?k - 1))"
    using load_tag_put_block [of "?k - 1" ?j ?N ?base True ?s2]
      lt [of "?k - 1"] lt [of ?j] lt [of "?j + ?N - 1"] pblk(3) blk(3) q0
    by simp
  then have "load_tag (mem ?s3) (word_at ?base (?k - 1)) = tag False p"
    using pblk(2) by simp
  from prev_blk_tag [OF this] have pb3: "prev_blk ?s3 ?bp = Some ?pa"
    using pblk(3,4) by simp
  have Fn: "set (free_blocks ?base 1 (xs' @ [(?N, True)] @ ys')) = ?F0 - {?na} - {?pa}"
  proof -
    have "?pa \<notin> set (free_blocks ?base 1 xs')" "?na \<notin> set (free_blocks ?base 1 xs')"
      by (rule free_blocks_notin, use ones lt [of ?j] lt [of "?k + n"] bound in simp_all)+
    moreover have "?pa \<notin> set (free_blocks ?base (?k + n + q) ys')"
      "?na \<notin> set (free_blocks ?base (?k + n + q) ys')"
      by (rule free_blocks_notin,
          use ones lt [of ?j] lt [of "?k + n"] lt [of "?k + n + q + total_words ys'"]
            bound p0 q0 in simp_all)+
    ultimately show ?thesis by (auto simp: free_blocks_append add.assoc)
  qed
  have lay2': "layout_ok ?s2 (xs' @ [(p, False), (n, True), (q, False)] @ ys')" using lay1 by simp
  have l2': "lists_ok ?s2 (set (free_blocks (heap_listp ?s2 - 4) 1 (xs' @ (?N, True) # ys')))"
    using l2 Fn by simp
  note fin = inplace_finish [OF lay2' _ blk(3) _ _ l2', where k = ?k]
  let ?m = "memmove (word_at ?base (2 + total_words xs')) ?ptr (of_nat (4 * n - 8)) (mem ?s3)"
  have ok3: "heap_ok (?s3\<lparr>mem := ?m\<rparr>) (xs' @ (?N, True) # ys')"
    using fin(1) by (simp add: add.commute add.left_commute)
  have data: "\<forall>i < 4 * n - 8. ?m (word_at ?base (2 + total_words xs') + of_nat i)
                = mem s (?ptr + of_nat i)"
    using fin(2) by (simp add: add.commute add.left_commute)
  have pp: "?pa + 4 = word_at ?base (2 + total_words xs')" by (simp add: word_at_plus_4)
  have "mm_realloc ?ptr sz s = Some (word_at ?base (2 + total_words xs'), ?s3\<lparr>mem := ?m\<rparr>)"
    using sz ra e nt p0 q0 pb rm rm2 nsz c2 c4 m3 pb3 pp
    by (simp add: mm_realloc_def Let_def)
  then show ?thesis using ok3 data by simp
qed

lemma used_blocks_coalesce:
  "used_blocks k (coalesce_blocks xs n ys) = used_blocks k xs @ used_blocks (k + total_words xs + n) ys"
proof -
  have a: "used_blocks k (fst (absorb_prev xs)) = used_blocks k xs"
    "total_words (fst (absorb_prev xs)) + snd (absorb_prev xs) = total_words xs"
    by (cases xs rule: absorb_prev_cases; simp add: used_blocks_append)+
  have b: "used_blocks (j + fst (absorb_next ys)) (snd (absorb_next ys)) = used_blocks j ys" for j
    by (cases ys rule: absorb_next_cases) simp_all
  have "k + total_words (fst (absorb_prev xs)) + (snd (absorb_prev xs) + n + fst (absorb_next ys))
          = (k + total_words xs + n) + fst (absorb_next ys)"
    using a(2) by simp
  then have "used_blocks (k + total_words (fst (absorb_prev xs))
                + (snd (absorb_prev xs) + n + fst (absorb_next ys))) (snd (absorb_next ys))
               = used_blocks (k + total_words xs + n) ys"
    by (simp only: b)
  then show ?thesis
    unfolding coalesce_blocks_split by (simp add: used_blocks_append a(1))
qed

lemma used_blocks_coalesce_set:
  assumes "1 \<le> n"
  shows "set (used_blocks k (coalesce_blocks xs n ys))
           = set (used_blocks k (xs @ (n, True) # ys)) - {(k + total_words xs, n)}"
proof -
  have "(k + total_words xs, n) \<notin> set (used_blocks k xs)"
    using used_blocks_range [of "k + total_words xs" n k xs] assms by auto
  moreover have "(k + total_words xs, n) \<notin> set (used_blocks (k + total_words xs + n) ys)"
    using used_blocks_range [of "k + total_words xs" n "k + total_words xs + n" ys] assms by auto
  ultimately show ?thesis
    by (auto simp: used_blocks_coalesce used_blocks_append)
qed

lemma min_word:
  assumes "b < 2 ^ 64"
  shows "(if sz < (of_nat b :: 64 word) then sz else of_nat b) = of_nat (min (unat sz) b)"
proof -
  have "(sz < (of_nat b :: 64 word)) = (unat sz < b)"
    using assms by (simp add: word_less_nat_alt unat_of_nat_64)
  then show ?thesis by (auto simp: min_def)
qed

text \<open>The bytes of the payload of an allocated block, under \<open>payloads_kept\<close>.\<close>

lemma payloads_keptD:
  assumes "payloads_kept base bs m m'" "(k, n) \<in> set (used_blocks 1 bs)" "i < 4 * n - 8"
  shows "m' (word_at base (k + 1) + of_nat i) = m (word_at base (k + 1) + of_nat i)"
proof -
  have "i < 4 * (n - 2)" using assms(3) by simp
  then show ?thesis using assms(1,2) unfolding payloads_kept_def by fastforce
qed

text \<open>The general case of resize on a well-formed heap: allocate, copy, free.\<close>

lemma realloc_fallback_correct:
  assumes ok: "heap_ok s (xs @ (n, True) # ys)"
  shows "\<exists>r s1. mm_malloc sz s = Some (r, s1)
     \<and> (r = 0 \<longrightarrow> s1 = s
           \<and> realloc_fallback (word_at (heap_listp s - 4) (2 + total_words xs)) sz
                (of_nat (4 * n - 8)) s = Some (0, s))
     \<and> (r \<noteq> 0 \<longrightarrow>
          (\<exists>s' zs c ws us f vs.
             realloc_fallback (word_at (heap_listp s - 4) (2 + total_words xs)) sz
               (of_nat (4 * n - 8)) s = Some (r, s')
           \<and> heap_ok s1 (zs @ (c, True) # ws)
           \<and> r = word_at (heap_listp s - 4) (2 + total_words zs)
           \<and> unat sz + 8 \<le> 4 * c
           \<and> (total_words xs + n \<le> total_words zs \<or> total_words zs + c \<le> total_words xs)
           \<and> heap_listp s' = heap_listp s \<and> mem_max_addr s' = mem_max_addr s
           \<and> heap_ok s' (us @ (f, False) # vs)
           \<and> total_words us \<le> total_words xs \<and> total_words xs + n \<le> total_words us + f
           \<and> set (used_blocks 1 (us @ (f, False) # vs))
               = insert (1 + total_words zs, c) (set (used_blocks 1 (xs @ (n, True) # ys)))
                 - {(1 + total_words xs, n)}
           \<and> (\<forall>i < 4 * c - 8.
                 mem s' (r + of_nat i) =
                   (if i < min (unat sz) (4 * n - 8)
                    then mem s (word_at (heap_listp s - 4) (2 + total_words xs) + of_nat i)
                    else mem s1 (r + of_nat i)))))"
proof -
  let ?base = "heap_listp s - 4"
  let ?bs = "xs @ (n, True) # ys"
  let ?k = "1 + total_words xs"
  let ?ptr = "word_at ?base (2 + total_words xs)"
  have lay: "layout_ok s ?bs" using ok by (simp add: heap_ok_def)
  note blk = layout_block [OF lay]
  have old: "(?k, n) \<in> set (used_blocks 1 ?bs)" by (simp add: used_blocks_append)
  from mm_malloc_correct [OF ok, of sz] obtain r s1 where
    m: "mm_malloc sz s = Some (r, s1)" "mem_max_addr s1 = mem_max_addr s"
      "heap_listp s1 = heap_listp s" "r = 0 \<longrightarrow> s1 = s"
    and succ: "r \<noteq> 0 \<longrightarrow>
                (\<exists>zs c ws. heap_ok s1 (zs @ (c, True) # ws)
                   \<and> r = word_at ?base (2 + total_words zs)
                   \<and> unat sz + 8 \<le> 4 * c
                   \<and> set (used_blocks 1 (zs @ (c, True) # ws))
                       = insert (1 + total_words zs, c) (set (used_blocks 1 ?bs))
                   \<and> (\<forall>(k, n) \<in> set (used_blocks 1 ?bs).
                         k + n \<le> 1 + total_words zs \<or> 1 + total_words zs + c \<le> k)
                   \<and> payloads_kept ?base ?bs (mem s) (mem s1))"
    by blast
  show ?thesis
  proof (cases "r = 0")
    case True
    then show ?thesis using m by (simp add: realloc_fallback_def)
  next
    case False
    with succ obtain zs c ws where
      ok1: "heap_ok s1 (zs @ (c, True) # ws)"
      and r: "r = word_at ?base (2 + total_words zs)"
      and c: "unat sz + 8 \<le> 4 * c"
      and used1: "set (used_blocks 1 (zs @ (c, True) # ws))
                    = insert (1 + total_words zs, c) (set (used_blocks 1 ?bs))"
      and disj: "\<forall>(k, n) \<in> set (used_blocks 1 ?bs).
                   k + n \<le> 1 + total_words zs \<or> 1 + total_words zs + c \<le> k"
      and kept1: "payloads_kept ?base ?bs (mem s) (mem s1)"
      by blast
    let ?j = "1 + total_words zs"
    let ?bs1 = "zs @ (c, True) # ws"
    have lay1: "layout_ok s1 ?bs1" using ok1 by (simp add: heap_ok_def)
    note nblk = layout_block [OF lay1]
    have bound1: "total_words ?bs1 + 2 \<le> 2 ^ 30" by (rule layout_bound [OF lay1])
    have d: "?k + n \<le> ?j \<or> ?j + c \<le> ?k" using disj old by blast
    have new: "(?j, c) \<in> set (used_blocks 1 ?bs1)" by (simp add: used_blocks_append)
    have "(?k, n) \<in> set (used_blocks 1 ?bs1)" using used1 old by blast
    from used_blocks_decomp [OF this] obtain xs1 ys1 where
      bs1: "?bs1 = xs1 @ (n, True) # ys1" and k1: "?k = 1 + total_words xs1"
      by blast
    have kn: "?k + n \<le> total_words ?bs1 + 1" unfolding bs1 using k1 by simp
    text \<open>the copy\<close>
    let ?cnt = "min (unat sz) (4 * n - 8)"
    have n64: "4 * n - 8 < 2 ^ 64" using kn bound1 by simp
    have cnt: "(if sz < of_nat (4 * n - 8) then sz else of_nat (4 * n - 8)) = (of_nat ?cnt :: size_t)"
      by (rule min_word [OF n64])
    have cle: "?cnt \<le> 4 * n - 8" "?cnt \<le> 4 * c - 8" using c by simp_all
    have b63: "4 * (?j + 1) < 2 ^ 63" "4 * (?k + 1) < 2 ^ 63" "?cnt < 2 ^ 63"
      using bound1 kn cle(1) blk(3) by simp_all
    have rb: "r = ?base + of_nat (4 * (?j + 1))" unfolding r by (simp add: word_at_bytes)
    have pb: "?ptr = ?base + of_nat (4 * (?k + 1))" by (simp add: word_at_bytes)
    have no1: "\<not> r - ?ptr < of_nat ?cnt"
      unfolding rb pb off_less [OF b63(1,2,3)] using d cle blk(3) nblk(3) by auto
    have no2: "\<not> ?ptr - r < of_nat ?cnt"
      unfolding rb pb off_less [OF b63(2,1,3)] using d cle blk(3) nblk(3) by auto
    let ?m = "memmove r ?ptr (of_nat ?cnt) (mem s1)"
    have cp: "memcpy r ?ptr (of_nat ?cnt) (mem s1) = Some ?m"
      using no1 no2 by (simp add: memcpy_def)
    have mv: "?m (?base + of_nat x) =
                (if 4 * (?j + 1) \<le> x \<and> x < 4 * (?j + 1) + ?cnt
                 then mem s1 (?base + of_nat (4 * (?k + 1) + (x - 4 * (?j + 1))))
                 else mem s1 (?base + of_nat x))" if "x < 2 ^ 63" for x
      unfolding rb pb by (rule memmove_byte [OF that b63(1,3)])
    let ?s2 = "s1\<lparr>mem := ?m\<rparr>"
    have ok2: "heap_ok ?s2 ?bs1"
    proof (rule heap_ok_payload_frame [OF ok1])
      fix x :: nat
      assume x: "x < 4 * (2 + total_words zs) \<or> 4 * (total_words zs + c) \<le> x" "x < 2 ^ 33"
      have "x < 2 ^ 63" by (rule less_le_trans [OF x(2)]) simp
      from mv [OF this] show "?m (heap_listp s1 - 4 + of_nat x) = mem s1 (heap_listp s1 - 4 + of_nat x)"
        using x(1) cle(2) nblk(3) m(3) by auto
    qed
    text \<open>the release of the old block\<close>
    have ok2': "heap_ok ?s2 (xs1 @ (n, True) # ys1)" using ok2 bs1 by simp
    from mm_free_full [OF ok2'] obtain s' where
      s': "mm_free (word_at (heap_listp ?s2 - 4) (2 + total_words xs1)) ?s2 = Some s'"
      "heap_ok s' (coalesce_blocks xs1 n ys1)"
      "mem_max_addr s' = mem_max_addr ?s2" "heap_listp s' = heap_listp ?s2"
      "payloads_kept (heap_listp ?s2 - 4) (xs1 @ (n, True) # ys1) (mem ?s2) (mem s')"
      by blast
    have fr: "mm_free ?ptr ?s2 = Some s'" using s'(1) k1 m(3) by simp
    have run: "realloc_fallback ?ptr sz (of_nat (4 * n - 8)) s = Some (r, s')"
      using m(1) False cnt cp fr by (simp add: realloc_fallback_def Let_def)
    let ?us = "fst (absorb_prev xs1)"
    let ?f = "snd (absorb_prev xs1) + n + fst (absorb_next ys1)"
    let ?vs = "snd (absorb_next ys1)"
    have okf: "heap_ok s' (?us @ (?f, False) # ?vs)"
      using s'(2) by (simp add: coalesce_blocks_split)
    have tot: "total_words ?us \<le> total_words xs" "total_words xs + n \<le> total_words ?us + ?f"
      using total_absorb_prev [of xs1] k1 by simp_all
    have usedf: "set (used_blocks 1 (?us @ (?f, False) # ?vs))
                   = insert (?j, c) (set (used_blocks 1 ?bs)) - {(?k, n)}"
      using used_blocks_coalesce_set [of n 1 xs1 ys1] blk(3) used1 bs1 k1
      by (simp add: coalesce_blocks_split)
    text \<open>the bytes of the new payload\<close>
    have data: "mem s' (r + of_nat i) =
                  (if i < ?cnt then mem s (?ptr + of_nat i) else mem s1 (r + of_nat i))"
      if i: "i < 4 * c - 8" for i
    proof -
      have x: "4 * (?j + 1) + i < 2 ^ 63" using bound1 i by simp
      have "mem s' (word_at ?base (?j + 1) + of_nat i) = ?m (word_at ?base (?j + 1) + of_nat i)"
        using payloads_keptD [OF s'(5) _ i, of ?j] new bs1 m(3) by simp
      then have a: "mem s' (r + of_nat i) = ?m (?base + of_nat (4 * (?j + 1) + i))"
        unfolding rb by (simp add: word_at_bytes add.assoc)
      show ?thesis
      proof (cases "i < ?cnt")
        case True
        then have cnd: "4 * (?j + 1) \<le> 4 * (?j + 1) + i \<and> 4 * (?j + 1) + i < 4 * (?j + 1) + ?cnt"
          by simp
        have "?m (?base + of_nat (4 * (?j + 1) + i))
                = mem s1 (?base + of_nat (4 * (?k + 1) + (4 * (?j + 1) + i - 4 * (?j + 1))))"
          unfolding mv [OF x] using cnd by (simp only: if_True simp_thms)
        then have "?m (?base + of_nat (4 * (?j + 1) + i)) = mem s1 (?base + of_nat (4 * (?k + 1) + i))"
          by (simp only: add_diff_cancel_left')
        also have "\<dots> = mem s1 (word_at ?base (?k + 1) + of_nat i)"
          by (simp add: word_at_bytes add.assoc)
        also have "\<dots> = mem s (word_at ?base (?k + 1) + of_nat i)"
          by (rule payloads_keptD [OF kept1 old]) (use True cle in simp)
        finally have "mem s' (r + of_nat i) = mem s (?ptr + of_nat i)"
          using a by (simp add: add.commute)
        then show ?thesis using True by (simp only: if_True)
      next
        case False
        then have cnd: "\<not> (4 * (?j + 1) \<le> 4 * (?j + 1) + i \<and> 4 * (?j + 1) + i < 4 * (?j + 1) + ?cnt)"
          by simp
        have "?m (?base + of_nat (4 * (?j + 1) + i)) = mem s1 (?base + of_nat (4 * (?j + 1) + i))"
          unfolding mv [OF x] using cnd by (simp only: if_False simp_thms)
        then have "mem s' (r + of_nat i) = mem s1 (r + of_nat i)"
          using a unfolding rb by (simp add: add.assoc)
        then show ?thesis using False by (simp only: if_False)
      qed
    qed
    have dd: "total_words xs + n \<le> total_words zs \<or> total_words zs + c \<le> total_words xs"
      using d by simp
    have hl: "heap_listp s' = heap_listp s" "mem_max_addr s' = mem_max_addr s"
      using s'(3,4) m(2,3) by simp_all
    from data have data': "\<forall>i < 4 * c - 8.
                 mem s' (r + of_nat i) =
                   (if i < min (unat sz) (4 * n - 8)
                    then mem s (?ptr + of_nat i)
                    else mem s1 (r + of_nat i))"
      by blast
    have "\<exists>s' zs c ws us f vs.
             realloc_fallback ?ptr sz (of_nat (4 * n - 8)) s = Some (r, s')
           \<and> heap_ok s1 (zs @ (c, True) # ws)
           \<and> r = word_at ?base (2 + total_words zs)
           \<and> unat sz + 8 \<le> 4 * c
           \<and> (total_words xs + n \<le> total_words zs \<or> total_words zs + c \<le> total_words xs)
           \<and> heap_listp s' = heap_listp s \<and> mem_max_addr s' = mem_max_addr s
           \<and> heap_ok s' (us @ (f, False) # vs)
           \<and> total_words us \<le> total_words xs \<and> total_words xs + n \<le> total_words us + f
           \<and> set (used_blocks 1 (us @ (f, False) # vs))
               = insert (1 + total_words zs, c) (set (used_blocks 1 ?bs)) - {(1 + total_words xs, n)}
           \<and> (\<forall>i < 4 * c - 8.
                 mem s' (r + of_nat i) =
                   (if i < min (unat sz) (4 * n - 8)
                    then mem s (?ptr + of_nat i)
                    else mem s1 (r + of_nat i)))"
      by (intro exI conjI) (fact run ok1 r c dd hl okf tot usedf data')+
    then show ?thesis
      using m(1) False by (intro exI [of _ r] exI [of _ s1]) (simp only: simp_thms)
  qed
qed

lemma one_used_heap_ok: "heap_ok one_used_heap [(8, True), (120, False)]"
  unfolding one_used_heap_def by (simp add: heap_ok_defs)

lemma free_subset_prev:
  "set (free_blocks base 1 (xs' @ (m, True) # ys))
     \<subseteq> set (free_blocks base 1 (xs' @ (p, False) # (n, True) # ys))" if "m = p + n"
  using that by (auto simp: free_blocks_append add.assoc)

lemma free_subset_next:
  "set (free_blocks base 1 (xs @ (m, True) # ys'))
     \<subseteq> set (free_blocks base 1 (xs @ (n, True) # (q, False) # ys'))" if "m = n + q"
  using that by (auto simp: free_blocks_append add.assoc)

lemma free_subset_both:
  "set (free_blocks base 1 (xs' @ (m, True) # ys'))
     \<subseteq> set (free_blocks base 1 (xs' @ (p, False) # (n, True) # (q, False) # ys'))"
  if "m = p + n + q"
  using that by (auto simp: free_blocks_append add.assoc)

lemma heap_ok_free: "heap_ok s bs \<Longrightarrow> set (all_free s) = set (free_blocks (heap_listp s - 4) 1 bs)"
  by (simp add: heap_ok_def lists_ok_def)

lemma filled_heap_ok: "heap_ok filled_heap [(128, True)]"
  unfolding filled_heap_def by (simp add: heap_ok_defs)

lemma inplace_blocks_None:
  assumes "inplace_blocks xs n ys a = None"
  shows "(snd (absorb_prev xs) = 0 \<and> fst (absorb_next ys) = 0)
         \<or> snd (absorb_prev xs) + n + fst (absorb_next ys) < a"
  using assms
  by (cases "absorb_prev xs"; cases "absorb_next ys")
     (auto simp: inplace_blocks_def split: if_splits)

text \<open>The three in-place cases of resize together.\<close>

lemma realloc_in_place_correct:
  assumes ok: "heap_ok s (xs @ (n, True) # ys)" and sz: "sz \<noteq> 0"
    and ra: "realloc_awords sz = Some aw"
    and ip: "inplace_blocks xs n ys (unat aw) = Some (xs', m, ys')"
  shows "\<exists>s'. mm_realloc (word_at (heap_listp s - 4) (2 + total_words xs)) sz s
                = Some (word_at (heap_listp s - 4) (2 + total_words xs'), s')
            \<and> heap_ok s' (xs' @ (m, True) # ys')
            \<and> (\<exists>l r. xs = xs' @ l \<and> ys = r @ ys' \<and> m = total_words l + n + total_words r)
            \<and> unat aw \<le> m
            \<and> blk_size s' (word_at (heap_listp s - 4) (1 + total_words xs')) = of_nat m
            \<and> \<not> blk_free s' (word_at (heap_listp s - 4) (1 + total_words xs'))
            \<and> set (all_free s') \<subseteq> set (all_free s)
            \<and> tag_writes s' =
                Header_and_footer (word_at (heap_listp s - 4) (1 + total_words xs'))
                  (tag True m) # tag_writes s
            \<and> (\<forall>i < 4 * n - 8.
                  mem s' (word_at (heap_listp s - 4) (2 + total_words xs') + of_nat i)
                    = mem s (word_at (heap_listp s - 4) (2 + total_words xs) + of_nat i))"
proof -
  let ?base = "heap_listp s - 4"
  have lay: "layout_ok s (xs @ (n, True) # ys)" using ok by (simp add: heap_ok_def)
  note fr = heap_ok_free [OF ok]
  have post: "blk_size s' (word_at ?base (1 + total_words xs')) = of_nat m
              \<and> \<not> blk_free s' (word_at ?base (1 + total_words xs'))"
    if "heap_ok s' (xs' @ (m, True) # ys')" "heap_listp s' = heap_listp s" for s'
    using heap_ok_block(1,2) [OF that(1)] that(2) by simp
  show ?thesis
  proof (cases xs rule: absorb_prev_cases)
    case used
    show ?thesis
    proof (cases ys rule: absorb_next_cases)
      case used': used
      then show ?thesis using ip used(2) by (simp add: inplace_blocks_def)
    next
      case (free zs q)
      have lay2: "layout_ok s ((xs @ [(n, True)]) @ (q, False) # zs)" using lay free(1) by simp
      have q0: "q \<noteq> 0" using layout_block(3) [OF lay2] by simp
      have r: "xs' = xs" "m = n + q" "ys' = zs" "unat aw \<le> n + q"
        using ip used(2) free(2) q0 by (auto simp: inplace_blocks_def split: if_splits)
      have ok': "heap_ok s (xs @ (n, True) # (q, False) # zs)" using ok free(1) by simp
      from realloc_absorb_next [OF ok' sz ra r(4)] post fr free_subset_next [of m n q ?base xs zs]
      show ?thesis
        unfolding r(1,3) free(1) using r(2,4) used(2) free(2)
        by (auto simp: heap_ok_free)
    qed
  next
    case (free ws p)
    have lay1: "layout_ok s (ws @ (p, False) # (n, True) # ys)" using lay free(1) by simp
    have p0: "p \<noteq> 0" "8 \<le> p" using layout_block(3) [OF lay1] by simp_all
    have ne: "ws \<noteq> xs" using free(1) by simp
    show ?thesis
    proof (cases ys rule: absorb_next_cases)
      case used
      have r: "xs' = ws" "m = p + n" "ys' = ys" "unat aw \<le> p + n"
        using ip used(2) free(2) p0 by (auto simp: inplace_blocks_def split: if_splits)
      have ok': "heap_ok s (ws @ (p, False) # (n, True) # ys)" using ok free(1) by simp
      have nu: "fst (absorb_next ys) = 0" using used(2) by simp
      from realloc_absorb_prev [OF ok' sz ra nu r(4)] post fr
        free_subset_prev [of m p n ?base ws ys]
      show ?thesis
        unfolding r(1,3) free(1) using r(2,4) used(2) free(2) ne
        by (auto simp: heap_ok_free add.assoc)
    next
      case free': (free zs q)
      have lay2: "layout_ok s ((xs @ [(n, True)]) @ (q, False) # zs)" using lay free'(1) by simp
      have q0: "q \<noteq> 0" using layout_block(3) [OF lay2] by simp
      show ?thesis
      proof (cases "unat aw \<le> n + q")
        case True
        have r: "xs' = xs" "m = n + q" "ys' = zs"
          using ip free(2) free'(2) q0 True by (auto simp: inplace_blocks_def split: if_splits)
        have ok': "heap_ok s (xs @ (n, True) # (q, False) # zs)" using ok free'(1) by simp
        from realloc_absorb_next [OF ok' sz ra True] post fr
          free_subset_next [of m n q ?base xs zs]
        show ?thesis
          unfolding r(1,3) free'(1) using r(2) True free(2) free'(2)
          by (auto simp: heap_ok_free)
      next
        case False
        then have nofit: "n + q < unat aw" by simp
        have r: "xs' = ws" "m = p + n + q" "ys' = zs" "unat aw \<le> p + n + q"
          using ip free(2) free'(2) p0 q0 False by (auto simp: inplace_blocks_def split: if_splits)
        have ok': "heap_ok s (ws @ (p, False) # (n, True) # (q, False) # zs)"
          using ok free(1) free'(1) by simp
        from realloc_absorb_both [OF ok' sz ra nofit r(4)] post fr
          free_subset_both [of m p n q ?base ws zs]
        show ?thesis
          unfolding r(1,3) free(1) free'(1) using r(2,4) free(2) free'(2) ne
          by (auto simp: heap_ok_free add.assoc)
      qed
    qed
  qed
qed

section \<open>The log of tag writes\<close>

lemma fences_only_simps [simp]:
  "fences_only []"
  "fences_only (Header_and_footer a t # ws) = fences_only ws"
  "fences_only (Direct a t # ws) = (t = FENCE \<and> fences_only ws)"
  by (simp_all add: fences_only_def)

lemma tw_set_header_and_footer [simp]:
  "fences_only (tag_writes (set_header_and_footer blk sz iu s)) = fences_only (tag_writes s)"
  by (simp add: set_header_and_footer_eq)

lemma tw_mark [simp]:
  "fences_only (tag_writes (mark_block_used blk sz s)) = fences_only (tag_writes s)"
  "fences_only (tag_writes (mark_block_free blk sz s)) = fences_only (tag_writes s)"
  by (simp_all add: mark_block_used_def mark_block_free_def)

lemma tw_list_remove: "list_remove e s = Some s' \<Longrightarrow> tag_writes s' = tag_writes s"
  by (auto simp: list_remove_def split: if_splits)

lemma tw_segregatedListAdd: "segregatedListAdd bp s = Some s' \<Longrightarrow> tag_writes s' = tag_writes s"
  by (auto simp: segregatedListAdd_eq split: if_splits)

lemma tw_mem_sbrk: "mem_sbrk n s = (r, s') \<Longrightarrow> tag_writes s' = tag_writes s"
  by (auto simp: mem_sbrk_def split: if_splits)

lemma tw_coalesce:
  assumes "coalesce bp s = Some (r, s')" "fences_only (tag_writes s)"
  shows "fences_only (tag_writes s')"
  using assms unfolding coalesce_def Let_def
  by (auto split: if_splits Option.bind_splits dest!: tw_list_remove tw_segregatedListAdd)

lemma tw_place:
  assumes "place bp a s = Some s'" "fences_only (tag_writes s)"
  shows "fences_only (tag_writes s')"
  using assms unfolding place_def Let_def
  by (auto split: if_splits Option.bind_splits dest!: tw_list_remove tw_segregatedListAdd)

lemma tw_extend_heap:
  assumes "extend_heap w s = Some (r, s')" "fences_only (tag_writes s)"
  shows "fences_only (tag_writes s')"
proof (cases "mem_sbrk (w * WSIZE) s")
  case (Pair bp s1)
  have t1: "fences_only (tag_writes s1)" using tw_mem_sbrk [OF Pair] assms(2) by simp
  show ?thesis
  proof (cases "bp = 0")
    case True
    then show ?thesis using assms(1) Pair t1 by (simp add: extend_heap_def)
  next
    case False
    then show ?thesis
      using assms(1) Pair t1 tw_coalesce [of "bp - 4" _ r s']
      by (simp add: extend_heap_def Let_def)
  qed
qed

lemma tw_mm_malloc:
  assumes "mm_malloc sz s = Some (r, s')" "fences_only (tag_writes s)"
  shows "fences_only (tag_writes s')"
  using assms unfolding mm_malloc_def Let_def
  by (auto split: option.splits if_splits Option.bind_splits prod.splits
      dest: tw_place tw_extend_heap)

lemma tw_mm_free:
  assumes "mm_free p s = Some s'" "fences_only (tag_writes s)"
  shows "fences_only (tag_writes s')"
  using assms tw_coalesce [of "p - 4" "mark_block_free (p - 4) (ucast (blk_size s (p - 4))) s"]
  unfolding mm_free_def Let_def
  by (auto split: if_splits Option.bind_splits prod.splits)

lemma tw_mm_init:
  assumes "mm_init s = Some (r, s')" "fences_only (tag_writes s)"
  shows "fences_only (tag_writes s')"
proof (cases "mem_sbrk (4 * 4) s")
  case (Pair initial s1)
  have t1: "fences_only (tag_writes s1)" using tw_mem_sbrk [OF Pair] assms(2) by simp
  show ?thesis
    using assms(1) Pair t1 unfolding mm_init_def Let_def
    by (auto split: if_splits Option.bind_splits prod.splits dest!: tw_extend_heap)
qed


lemma tw_realloc_fallback:
  assumes "realloc_fallback p sz old s = Some (r, s')" "fences_only (tag_writes s)"
  shows "fences_only (tag_writes s')"
  using assms unfolding realloc_fallback_def Let_def
  by (auto split: if_splits Option.bind_splits prod.splits
      dest!: tw_mm_malloc dest: tw_mm_free)

lemma tw_mm_realloc:
  assumes "mm_realloc p sz s = Some (r, s')" "fences_only (tag_writes s)"
  shows "fences_only (tag_writes s')"
  using assms unfolding mm_realloc_def Let_def
  by (auto split: if_splits option.splits Option.bind_splits prod.splits
      dest!: tw_list_remove dest: tw_mm_malloc tw_mm_free tw_realloc_fallback tw_extend_heap)

section \<open>Initialisation and the invariant under the public operations\<close>

text \<open>Initialisation of an arena that has room for the fences and the first chunk and is
  smaller than four gibibytes.\<close>

lemma mm_init_correct:
  assumes brk: "mem_brk s \<noteq> 0"
    and room: "unat (mem_brk s) + 528 \<le> unat (mem_max_addr s)"
    and lim: "unat (mem_max_addr s) \<le> unat (mem_brk s) + 8 + 2 ^ 32"
  shows "\<exists>s'. mm_init s = Some (0, s') \<and> heap_ok s' [(128, False)]
           \<and> heap_listp s' = mem_brk s + 12 \<and> mem_max_addr s' = mem_max_addr s"
proof -
  let ?i = "mem_brk s"
  let ?s1 = "s\<lparr>mem_brk := ?i + 4 * 4\<rparr>"
  let ?s2 = "?s1\<lparr>segregatedList := (\<lambda>i. if i < NUM_SIZE_CLASSES then [] else segregatedList ?s1 i)\<rparr>"
  let ?s3 = "store_direct (?i + 2 * 4) FENCE ?s2"
  let ?s4 = "?s3\<lparr>heap_listp := ?i + 3 * 4\<rparr>"
  let ?s5 = "store_direct (?i + 3 * 4) FENCE ?s4"
  have m64: "unat (mem_max_addr s) < 2 ^ 64"
    using unsigned_less [of "mem_max_addr s", where 'a = nat] by simp
  have u: "unat (?i + 8) = unat ?i + 8" "unat (?i + 12) = unat ?i + 12"
    "unat (?i + 16) = unat ?i + 16"
    using room m64 by (simp_all add: unat_word_ariths)
  have sb: "mem_sbrk (4 * 4) s = (?i, ?s1)"
    using room by (simp add: mem_sbrk_def)
  have far: "(4 :: 64 word) \<le> (?i + 12) - (?i + 8)" "(4 :: 64 word) \<le> (?i + 8) - (?i + 12)"
    by simp_all
  have lay: "layout_ok ?s5 []"
    using u room lim far
    by (simp add: layout_ok_def Let_def word_at_def load_tag_store_tag_other add.commute)
  have "all_free ?s5 = []"
    by (simp add: all_free_def)
  then have ok5: "heap_ok ?s5 []"
    using lay by (simp add: heap_ok_def lists_ok_def)
  have r5: "unat (mem_brk ?s5) + 4 * 128 \<le> unat (mem_max_addr ?s5)"
    using u room by simp
  from extend_heap_correct [OF ok5, of 128] r5 obtain s' where
    s': "extend_heap (of_nat 128) ?s5 = Some (word_at (heap_listp ?s5 - 4) (1 + total_words (fst (absorb_prev []))), s')"
    "heap_ok s' (coalesce_blocks [] 128 [])"
    "mem_max_addr s' = mem_max_addr ?s5" "heap_listp s' = heap_listp ?s5"
    by auto
  have r: "word_at (heap_listp ?s5 - 4) (1 + total_words (fst (absorb_prev []))) = ?i + 12"
    by (simp add: absorb_prev_def word_at_def)
  have nz: "?i + 12 \<noteq> 0" using u(2) by (metis add_is_0 unat_eq_zero zero_neq_numeral)
  have cb: "coalesce_blocks [] 128 [] = [(128, False)]"
    by (simp add: coalesce_blocks_def absorb_prev_def absorb_next_def)
  have "mm_init s = Some (0, s')"
    using sb brk s'(1) r nz
    by (simp add: mm_init_def Let_def CHUNKSIZE_128 cong: if_cong)
  then show ?thesis using s'(2,3,4) cb by simp
qed

lemma load32_bytes:
  "m a = ucast (load32 m a)"
  "m (a + 1) = ucast (drop_bit 8 (load32 m a))"
  "m (a + 2) = ucast (drop_bit 16 (load32 m a))"
  "m (a + 3) = ucast (drop_bit 24 (load32 m a))"
  unfolding load32_def
  by (rule bit_word_eqI, auto simp: bit_simps dest: bit_imp_le_length)+

lemma load_tag_eq_bytes:
  assumes "load_tag m a = load_tag m b" "d < 4"
  shows "m (a + of_nat d) = m (b + of_nat d)"
proof -
  have "encode_tag (load_tag m a) = encode_tag (load_tag m b)" using assms(1) by simp
  then have e: "load32 m a = load32 m b" by (simp add: load_tag_def)
  from assms(2) consider "d = 0" | "d = 1" | "d = 2" | "d = 3" by linarith
  then show ?thesis
  proof cases
    case 1 then show ?thesis using load32_bytes(1) [of m a] load32_bytes(1) [of m b] e by simp
  next
    case 2 then show ?thesis using load32_bytes(2) [of m a] load32_bytes(2) [of m b] e by simp
  next
    case 3 then show ?thesis using load32_bytes(3) [of m a] load32_bytes(3) [of m b] e by simp
  next
    case 4 then show ?thesis using load32_bytes(4) [of m a] load32_bytes(4) [of m b] e by simp
  qed
qed

lemma realloc_overflow:
  assumes ok: "heap_ok s (xs @ (n, True) # ys)" and sz: "sz \<noteq> 0"
    and ra: "realloc_awords sz = None"
  shows "mm_realloc (word_at (heap_listp s - 4) (2 + total_words xs)) sz s = Some (0, s)"
  using sz ra realloc_entry [OF ok] by (simp add: mm_realloc_def Let_def)

text \<open>Every call of resize on an allocated block of a well-formed heap returns and leaves
  a well-formed heap.\<close>

lemma mm_realloc_preserves:
  assumes ok: "heap_ok s (xs @ (n, True) # ys)"
  shows "\<exists>r s' bs'. mm_realloc (word_at (heap_listp s - 4) (2 + total_words xs)) sz s = Some (r, s')
           \<and> heap_ok s' bs'"
proof (cases "sz = 0")
  case True
  from mm_free_full [OF ok] obtain s' where
    "mm_free (word_at (heap_listp s - 4) (2 + total_words xs)) s = Some s'"
    "heap_ok s' (coalesce_blocks xs n ys)"
    by blast
  then show ?thesis using True by (auto simp: mm_realloc_def)
next
  case False
  show ?thesis
  proof (cases "realloc_awords sz")
    case None
    from realloc_overflow [OF ok False None] ok show ?thesis by blast
  next
    case (Some aw)
    show ?thesis
    proof (cases "inplace_blocks xs n ys (unat aw)")
      case None
      note fb = realloc_falls_back [OF ok False Some inplace_blocks_None [OF None]]
      have "\<exists>r s' bs'. realloc_fallback (word_at (heap_listp s - 4) (2 + total_words xs)) sz
                        (of_nat (4 * n - 8)) s = Some (r, s') \<and> heap_ok s' bs'"
        using realloc_fallback_correct [OF ok, of sz] ok
        apply (elim exE conjE)
        subgoal for r s1
          apply (cases "r = 0")
          subgoal
            apply (simp only: simp_thms)
            apply (elim conjE)
            apply (intro exI conjI)
             apply (rule refl | assumption)+
            done
          subgoal
            apply (simp only: simp_thms)
            apply (elim exE conjE)
            apply (intro exI conjI)
             apply (rule refl | assumption)+
            done
          done
        done
      then show ?thesis unfolding fb .
    next
      case (Some t)
      obtain xs' m ys' where t: "t = (xs', m, ys')" by (cases t)
      from realloc_in_place_correct [OF ok False \<open>realloc_awords sz = Some aw\<close>
          Some [unfolded t]]
      show ?thesis
        apply (elim exE conjE)
        apply (intro exI conjI)
         apply assumption+
        done
    qed
  qed
qed

lemma header_footer_bytes:
  assumes ok: "heap_ok s (xs @ (n, u) # ys)" and d: "(d :: nat) < 4"
  shows "mem s (get_footer s (word_at (heap_listp s - 4) (1 + total_words xs)) + of_nat d)
           = mem s (word_at (heap_listp s - 4) (1 + total_words xs) + of_nat d)"
  by (rule load_tag_eq_bytes [OF heap_ok_block(3) [OF ok] d])

section \<open>Size normalisation: the claim\<close>

text \<open>
  Claim C2, as stated: allocate and the in-place path of resize compute the block size by
  the same rule applied to the requested size itself.  It fails at the requested size
  448, which \<^verbatim>\<open>mm_malloc\<close> replaces by 512 before normalising: the block gets 132 words,
  the rule applied to 448 gives 116.
\<close>

theorem malloc_remaps_448:
  "malloc_awords 448 = Some 132 \<and> realloc_awords 448 = Some 116 \<and> spec_normalize 448 = 116"
  by (simp add: malloc_awords_def realloc_awords_def spec_normalize_def align_def ALIGNMENT_def
      max_sz_def MIN_BLOCK_SIZE_WORDS_def WSIZE_def)

text \<open>
  Claim C2, amended: for every requested size \<open>n > 0\<close> whose normalisation does not
  overflow, the in-place path of resize computes the block size by the rule of the
  specification applied to \<open>n\<close> itself, and so does allocate for every \<open>n\<close> other than 448
  and 112; allocate normalises 512 in place of 448 and 128 in place of 112.
\<close>

theorem normalized_block_size:
  assumes "n \<noteq> 0" and "unat n + 23 < 2 ^ 64"
  shows "realloc_awords n = Some (of_nat (spec_normalize (unat n)))
       \<and> (n \<noteq> 448 \<and> n \<noteq> 112 \<longrightarrow> malloc_awords n = realloc_awords n)
       \<and> malloc_awords 448 = Some (of_nat (spec_normalize 512))
       \<and> malloc_awords 112 = Some (of_nat (spec_normalize 128))"
proof -
  have "malloc_awords 448 = realloc_awords 512" "malloc_awords 112 = realloc_awords 128"
    by (simp_all add: malloc_awords_realloc)
  moreover have "realloc_awords 512 = Some (of_nat (spec_normalize 512))"
    using realloc_awords_spec [of 512] by simp
  moreover have "realloc_awords 128 = Some (of_nat (spec_normalize 128))"
    using realloc_awords_spec [of 128] by simp
  ultimately show ?thesis
    using assms realloc_awords_spec [of n] malloc_awords_realloc [of n] by simp
qed

theorem normalized_block_size_witness:
  "(100 :: size_t) \<noteq> 0 \<and> unat (100 :: size_t) + 23 < 2 ^ 64
   \<and> realloc_awords 100 = Some 28 \<and> malloc_awords 100 = Some 28
   \<and> malloc_awords 448 = Some 132 \<and> malloc_awords 112 = Some 36"
  using normalized_block_size [of 100] by (simp add: spec_normalize_def)

section \<open>Fit search\<close>

text \<open>
  Claim C1, as stated: a bucket is given up only after five candidates have been examined,
  so a fifth block that fits, when no earlier block does, is returned.  In
  \<open>five_free_heap\<close> the fifth block of the first bucket is free and has the 16 words
  asked for, the four blocks before it are too small, and the search returns the null
  pointer.
\<close>

theorem find_fit_skips_fifth:
  "segregatedList five_free_heap 0 = [4396, 4332, 4268, 4204, 4108, 4460]
   \<and> \<not> fits five_free_heap 16 4396 \<and> \<not> fits five_free_heap 16 4332
   \<and> \<not> fits five_free_heap 16 4268 \<and> \<not> fits five_free_heap 16 4204
   \<and> fits five_free_heap 16 4108
   \<and> find_fit 16 five_free_heap = Some 0"
  unfolding five_free_heap_def five_free_blocks_def
  by (simp add: mk_heap_defs eval_defs)

text \<open>
  Claim C1, amended: in the fit search, for every needed size and every bucket, the
  allocator scans the bucket's blocks in list order and returns the first block that is
  free and at least of the needed size among the first four blocks of the bucket; the
  bucket is given up when its fifth block is reached, before that block is examined, or
  at the end of the list, and the search goes on in the next bucket.  When no bucket
  yields a block the result is the null pointer.
\<close>

theorem find_fit_first_four:
  "scan_list s asize 0 es = find (fits s asize) (take 4 es)
   \<and> find_fit asize s =
       (if asize = 0 then None
        else Some (case List.map_filter
                          (\<lambda>i. find (fits s asize) (take 4 (segregatedList s i)))
                          [0..<NUM_SIZE_CLASSES] of
                     [] \<Rightarrow> 0
                   | bp # bps \<Rightarrow> bp))"
  using scan_list_eq [of s asize 0 es] by (simp add: find_fit_def find_fit_loop_eq)

section \<open>Special cases of resize\<close>

text \<open>
  Claim C4: on an initialised allocator, \<open>resize(p, 0)\<close> performs exactly the state
  change of \<open>free(p)\<close> and returns the null pointer, and \<open>resize(null, n)\<close> performs
  exactly the state change of \<open>allocate(n)\<close> and returns its result.
\<close>

theorem realloc_special_cases:
  assumes "heap_listp s \<noteq> 0"
  shows "mm_realloc p 0 s = map_option (Pair 0) (mm_free p s)
       \<and> mm_realloc 0 n s = mm_malloc n s"
proof -
  have "mm_realloc p 0 s = map_option (Pair 0) (mm_free p s)"
    by (cases "mm_free p s") (simp_all add: mm_realloc_def)
  moreover have "mm_realloc 0 n s = mm_malloc n s"
  proof (cases "n = 0")
    case True
    then show ?thesis
      using assms by (simp add: mm_realloc_def mm_free_def mm_malloc_def malloc_awords_def)
  next
    case False
    then show ?thesis by (simp add: mm_realloc_def)
  qed
  ultimately show ?thesis by simp
qed

theorem realloc_special_cases_witness:
  "heap_listp one_used_heap \<noteq> 0
   \<and> mm_realloc 4112 0 one_used_heap = map_option (Pair 0) (mm_free 4112 one_used_heap)
   \<and> mm_realloc 0 24 one_used_heap = mm_malloc 24 one_used_heap"
proof -
  have "heap_listp one_used_heap \<noteq> 0"
    unfolding one_used_heap_def by (simp add: mk_heap_def)
  then show ?thesis
    using realloc_special_cases [of one_used_heap 4112 24] by simp
qed

section \<open>Placement\<close>

text \<open>
  Claim C7: on a well-formed heap, for every free block of \<open>c\<close> words placed with a needed
  size of \<open>a\<close> words (a normalised size, so \<open>8 \<le> a\<close>, and \<open>a \<le> c\<close>): if \<open>c - a\<close> is at
  least the minimum block size of 8 words the block is split, the left part marked
  allocated with size exactly \<open>a\<close> and the remainder a free block of \<open>c - a\<close> words that
  is inserted into the free lists; otherwise the whole block of \<open>c\<close> words is marked
  allocated.  In both cases the placed block leaves the free lists and the heap stays
  well-formed.
\<close>

theorem place_splits_or_fills:
  assumes "heap_ok s (xs @ (c, False) # ys)" and "8 \<le> a" and "a \<le> c"
  shows "\<exists>s'. place (word_at (heap_listp s - 4) (1 + total_words xs)) (of_nat a) s = Some s'
     \<and> blk_size s (word_at (heap_listp s - 4) (1 + total_words xs)) = of_nat c
     \<and> word_at (heap_listp s - 4) (1 + total_words xs) \<notin> set (all_free s')
     \<and> \<not> blk_free s' (word_at (heap_listp s - 4) (1 + total_words xs))
     \<and> (if 8 \<le> c - a
         then heap_ok s' (xs @ (a, True) # (c - a, False) # ys)
            \<and> blk_size s' (word_at (heap_listp s - 4) (1 + total_words xs)) = of_nat a
            \<and> blk_size s' (word_at (heap_listp s - 4) (1 + total_words xs + a)) = of_nat (c - a)
            \<and> blk_free s' (word_at (heap_listp s - 4) (1 + total_words xs + a))
            \<and> word_at (heap_listp s - 4) (1 + total_words xs + a) \<in> set (all_free s')
         else heap_ok s' (xs @ (c, True) # ys)
            \<and> blk_size s' (word_at (heap_listp s - 4) (1 + total_words xs)) = of_nat c)"
proof -
  from place_correct [OF assms] obtain s' where
    s': "place (word_at (heap_listp s - 4) (1 + total_words xs)) (of_nat a) s = Some s'"
    "heap_ok s' (xs @ place_blocks c a @ ys)" "heap_listp s' = heap_listp s"
    by blast
  have c: "blk_size s (word_at (heap_listp s - 4) (1 + total_words xs)) = of_nat c"
    by (rule heap_ok_block(1) [OF assms(1)])
  show ?thesis
  proof (cases "8 \<le> c - a")
    case True
    then have ok1: "heap_ok s' (xs @ (a, True) # (c - a, False) # ys)"
      and ok2: "heap_ok s' ((xs @ [(a, True)]) @ (c - a, False) # ys)"
      using s'(2) by (simp_all add: place_blocks_def)
    show ?thesis
      using s' c True ok1 heap_ok_block [OF ok1] heap_ok_block [OF ok2]
      by (auto simp: add.assoc)
  next
    case False
    then have ok1: "heap_ok s' (xs @ (c, True) # ys)"
      using s'(2) by (simp add: place_blocks_def)
    show ?thesis
      using s' c False ok1 heap_ok_block [OF ok1] by auto
  qed
qed

theorem place_splits_or_fills_witness:
  "heap_ok init_heap ([] @ (128, False) # []) \<and> (8 :: nat) \<le> 16 \<and> (16 :: nat) \<le> 128
   \<and> (\<exists>s'. place 4108 16 init_heap = Some s'
          \<and> heap_ok s' [(16, True), (112, False)]
          \<and> blk_size s' 4108 = 16 \<and> \<not> blk_free s' 4108
          \<and> blk_size s' 4172 = 112 \<and> blk_free s' 4172 \<and> 4172 \<in> set (all_free s'))"
proof -
  have h: "heap_ok init_heap ([] @ (128, False) # [])" using init_heap_ok by simp
  have "heap_listp init_heap = 4108" by (simp add: init_heap_def mk_heap_def)
  then show ?thesis
    using h place_splits_or_fills [OF h, of 16] by (auto simp: word_at_def)
qed

section \<open>Coalescing\<close>

text \<open>
  Claim C6, as stated: in every one of the four cases exactly one header/footer write
  establishes the merged size.  In \<open>just_freed_heap\<close> the block at 4108 is free and both
  its neighbours are in use (the two fences): the coalescer returns the block, and it has
  written no tag.
\<close>

theorem coalesce_no_merge_no_write:
  "map_option (\<lambda>(r, s'). (r, tag_writes s' = tag_writes just_freed_heap))
     (coalesce 4108 just_freed_heap)
     = Some (4108, True)
   \<and> inuse (load_tag (mem just_freed_heap) (prev_blk_footer 4108))
   \<and> \<not> blk_free just_freed_heap (next_blk just_freed_heap 4108)
   \<and> blk_free just_freed_heap 4108"
  unfolding just_freed_heap_def
  by (simp add: mk_heap_defs eval_defs)

text \<open>
  Claim C6, amended: for every free block passed to the coalescer (its tags written, the
  block in no free list yet, the heap otherwise well-formed), exactly one of four cases
  applies by the states of the predecessor, read from its footer, and of the successor,
  read from its header: a free predecessor of \<open>p\<close> words and a free successor of \<open>q\<close>
  words are detached from the free lists and absorbed (\<open>p = 0\<close>, \<open>q = 0\<close> when the
  neighbour is in use).  The merged block has the size \<open>p + n + q\<close> and starts at the
  predecessor's address when the predecessor is free, at the block's own address
  otherwise; that address is returned, and the merged block is at the head of the bucket
  of its size class.  When a neighbour is absorbed, exactly one header/footer write
  establishes the merged size; when both neighbours are in use, the coalescer writes no
  tag.
\<close>

theorem coalesce_four_cases:
  assumes "layout_ok s (xs @ (n, False) # ys)"
    and "lists_ok s (set (free_blocks (heap_listp s - 4) 1 (xs @ (n, True) # ys)))"
  shows "\<exists>s'. coalesce (word_at (heap_listp s - 4) (1 + total_words xs)) s =
               Some (word_at (heap_listp s - 4) (1 + total_words xs) - 4 * of_nat (snd (absorb_prev xs)), s')
     \<and> inuse (load_tag (mem s) (prev_blk_footer (word_at (heap_listp s - 4) (1 + total_words xs))))
         = (snd (absorb_prev xs) = 0)
     \<and> blk_free s (next_blk s (word_at (heap_listp s - 4) (1 + total_words xs)))
         = (fst (absorb_next ys) \<noteq> 0)
     \<and> heap_ok s' (fst (absorb_prev xs)
                     @ (snd (absorb_prev xs) + n + fst (absorb_next ys), False)
                     # snd (absorb_next ys))
     \<and> hd (segregatedList s'
             (size_class (of_nat (snd (absorb_prev xs) + n + fst (absorb_next ys)))))
         = word_at (heap_listp s - 4) (1 + total_words xs) - 4 * of_nat (snd (absorb_prev xs))
     \<and> (if snd (absorb_prev xs) = 0 \<and> fst (absorb_next ys) = 0
         then tag_writes s' = tag_writes s
         else tag_writes s' =
                Header_and_footer
                  (word_at (heap_listp s - 4) (1 + total_words xs) - 4 * of_nat (snd (absorb_prev xs)))
                  (tag False (snd (absorb_prev xs) + n + fst (absorb_next ys)))
                # tag_writes s)"
proof -
  have r: "word_at (heap_listp s - 4) (1 + total_words xs) - 4 * of_nat (snd (absorb_prev xs))
             = word_at (heap_listp s - 4) (1 + total_words (fst (absorb_prev xs)))"
    by (cases xs rule: absorb_prev_cases) (simp_all add: word_at_sub)
  from coalesce_correct [OF assms] neighbour_tags [OF assms(1)]
  show ?thesis
    unfolding r coalesce_blocks_split by (auto split: if_splits)
qed

theorem coalesce_four_cases_witness:
  "layout_ok three_free_heap ([(16, False)] @ (8, False) # [(104, False)])
   \<and> lists_ok three_free_heap
        (set (free_blocks (heap_listp three_free_heap - 4) 1
                ([(16, False)] @ (8, True) # [(104, False)])))
   \<and> (\<exists>s'. coalesce 4172 three_free_heap = Some (4108, s')
          \<and> heap_ok s' [(128, False)]
          \<and> hd (segregatedList s' 0) = 4108
          \<and> tag_writes s' = [Header_and_footer 4108 (tag False 128)])"
proof -
  have l: "layout_ok three_free_heap ([(16, False)] @ (8, False) # [(104, False)])"
    unfolding three_free_heap_def by (simp add: heap_ok_defs)
  have f: "lists_ok three_free_heap
        (set (free_blocks (heap_listp three_free_heap - 4) 1
                ([(16, False)] @ (8, True) # [(104, False)])))"
    unfolding three_free_heap_def by (simp add: heap_ok_defs)
  have "heap_listp three_free_heap = 4108" "tag_writes three_free_heap = []"
    by (simp_all add: three_free_heap_def mk_heap_def)
  then show ?thesis
    using l f coalesce_four_cases [OF l f]
    by (auto simp add: word_at_def absorb_prev_def absorb_next_def size_class_def)
qed

section \<open>Failure of allocation\<close>

text \<open>
  Claim C9: on a well-formed heap, allocate returns the null pointer exactly in three
  situations: the requested size is 0, the normalisation of the size overflows (the
  requested size plus 23 exceeds the range of \<^verbatim>\<open>size_t\<close>), or the fit search finds no
  block and the heap-growth primitive fails.  Whenever the null pointer is returned the
  allocator state is exactly the state before the call, so nothing has been committed;
  whenever a block is returned the heap is well-formed again.
\<close>

theorem malloc_null_exactly:
  assumes "heap_ok s bs"
  shows "\<exists>r s'. mm_malloc sz s = Some (r, s')
     \<and> ((r = 0) = (sz = 0 \<or> 2 ^ 64 \<le> unat sz + 23
                    \<or> (\<exists>aw. malloc_awords sz = Some aw \<and> find_fit aw s = Some 0
                          \<and> fst (mem_sbrk (max_sz aw CHUNKSIZE * WSIZE) s) = 0)))
     \<and> (r = 0 \<longrightarrow> s' = s)
     \<and> (r \<noteq> 0 \<longrightarrow> (\<exists>bs'. heap_ok s' bs'))"
proof -
  have lay: "layout_ok s bs" using assms by (simp add: heap_ok_def)
  have g: "(fst (mem_sbrk (max_sz aw CHUNKSIZE * WSIZE) s) = 0)
             = (unat (mem_max_addr s) < unat (mem_brk s) + 4 * max (unat aw) 128)"
    if "malloc_awords sz = Some aw" for aw
  proof -
    note aw = malloc_awords_Some [OF that]
    have "unat aw < 2 ^ 64" using unsigned_less [of aw, where 'a = nat] by simp
    from max_sz_of_nat [OF this] have "max_sz aw CHUNKSIZE = of_nat (max (unat aw) 128)"
      by simp
    moreover have "max (unat aw) 128 < 2 ^ 62" using aw(2) by simp
    ultimately show ?thesis using mem_sbrk_fails [OF lay] by simp
  qed
  from mm_malloc_correct [OF assms, of sz] obtain r s' where
    m: "mm_malloc sz s = Some (r, s')"
    "(r = 0) = (malloc_awords sz = None
                 \<or> (\<exists>aw. malloc_awords sz = Some aw \<and> find_fit aw s = Some 0
                      \<and> unat (mem_max_addr s) < unat (mem_brk s) + 4 * max (unat aw) 128))"
    "r = 0 \<longrightarrow> s' = s"
    "r \<noteq> 0 \<longrightarrow> (\<exists>bs'. heap_ok s' bs')"
    by blast
  have "(r = 0) = (sz = 0 \<or> 2 ^ 64 \<le> unat sz + 23
                    \<or> (\<exists>aw. malloc_awords sz = Some aw \<and> find_fit aw s = Some 0
                          \<and> fst (mem_sbrk (max_sz aw CHUNKSIZE * WSIZE) s) = 0))"
    unfolding m(2) malloc_awords_None_iff using g by auto
  then show ?thesis using m(1,3,4) by blast
qed

theorem malloc_null_exactly_witness:
  "heap_ok init_heap [(128, False)] \<and> heap_ok full_heap [(128, True)]
   \<and> mm_malloc 0 init_heap = Some (0, init_heap)
   \<and> mm_malloc 24 full_heap = Some (0, full_heap)
   \<and> (\<exists>s'. mm_malloc 24 init_heap = Some (4112, s') \<and> (\<exists>bs'. heap_ok s' bs'))"
proof -
  have a: "malloc_awords 24 = Some 8"
    by (simp add: eval_defs)
  have b: "find_fit 8 full_heap = Some 0"
       "fst (mem_sbrk (max_sz 8 CHUNKSIZE * WSIZE) full_heap) = 0"
    unfolding full_heap_def by (simp_all add: mk_heap_defs eval_defs)
  have c: "map_option fst (mm_malloc 24 init_heap) = Some 4112"
    unfolding init_heap_def by (simp add: mk_heap_defs eval_defs)
  show ?thesis
    using malloc_null_exactly [OF init_heap_ok, of 0] malloc_null_exactly [OF init_heap_ok, of 24]
      malloc_null_exactly [OF full_heap_ok, of 24] init_heap_ok full_heap_ok a b c
    by auto
qed

section \<open>Resize in place\<close>

text \<open>
  Claim C10: on a well-formed heap, whenever one of the three in-place cases of resize
  applies to an allocated block of \<open>n\<close> words (predecessor absorbed, successor absorbed,
  or both), the call returns the payload address of a block that is allocated with the
  full sum \<open>m\<close> of the sizes of the block and of the neighbours \<open>l\<close> and \<open>r\<close> merged
  into it, which is at least the needed size.  The blocks before and after the merged
  ones are as they were, so no remainder is split off; no block is inserted into a free
  list; exactly one header/footer write is made, with the size \<open>m\<close>; and the old payload
  is at the start of the new one.  In \<open>one_used_heap\<close> a block of 8 words resized to a
  needed size of 12 words becomes a block of 128 words.
\<close>

theorem resize_in_place_full_sum:
  assumes ok: "heap_ok s (xs @ (n, True) # ys)" and sz: "sz \<noteq> 0"
    and ra: "realloc_awords sz = Some aw"
    and ip: "inplace_blocks xs n ys (unat aw) = Some (xs', m, ys')"
  shows "\<exists>s'. mm_realloc (word_at (heap_listp s - 4) (2 + total_words xs)) sz s
                = Some (word_at (heap_listp s - 4) (2 + total_words xs'), s')
            \<and> heap_ok s' (xs' @ (m, True) # ys')
            \<and> (\<exists>l r. xs = xs' @ l \<and> ys = r @ ys' \<and> m = total_words l + n + total_words r)
            \<and> unat aw \<le> m
            \<and> blk_size s' (word_at (heap_listp s - 4) (1 + total_words xs')) = of_nat m
            \<and> \<not> blk_free s' (word_at (heap_listp s - 4) (1 + total_words xs'))
            \<and> set (all_free s') \<subseteq> set (all_free s)
            \<and> tag_writes s' =
                Header_and_footer (word_at (heap_listp s - 4) (1 + total_words xs'))
                  (tag True m) # tag_writes s
            \<and> (\<forall>i < 4 * n - 8.
                  mem s' (word_at (heap_listp s - 4) (2 + total_words xs') + of_nat i)
                    = mem s (word_at (heap_listp s - 4) (2 + total_words xs) + of_nat i))"
  by (rule realloc_in_place_correct [OF assms])

theorem resize_in_place_full_sum_witness:
  "heap_ok one_used_heap ([] @ (8, True) # [(120, False)])
   \<and> (40 :: size_t) \<noteq> 0 \<and> realloc_awords 40 = Some 12
   \<and> inplace_blocks [] 8 [(120, False)] (unat (12 :: size_t)) = Some ([], 128, [])
   \<and> (\<exists>s'. mm_realloc 4112 40 one_used_heap = Some (4112, s')
          \<and> heap_ok s' [(128, True)] \<and> blk_size s' 4108 = 128 \<and> \<not> blk_free s' 4108
          \<and> set (all_free s') \<subseteq> {4140}
          \<and> tag_writes s' = [Header_and_footer 4108 (tag True 128)])"
proof -
  have h: "heap_ok one_used_heap ([] @ (8, True) # [(120, False)])"
    using one_used_heap_ok by simp
  have a: "realloc_awords 40 = Some 12" by (simp add: eval_defs)
  have b: "inplace_blocks [] 8 [(120, False)] (unat (12 :: size_t)) = Some ([], 128, [])"
    by (simp add: inplace_blocks_def absorb_prev_def absorb_next_def)
  have c: "heap_listp one_used_heap = 4108" "tag_writes one_used_heap = []"
    "set (all_free one_used_heap) = {4140}"
    by (simp_all add: one_used_heap_def mk_heap_def all_free_def NUM_SIZE_CLASSES_def upt_rec)
  show ?thesis
    using h a b c resize_in_place_full_sum [OF h _ a b]
    by (auto simp: word_at_def)
qed

section \<open>Resize at the end of the heap\<close>

text \<open>
  Claim C3: the code does not do what the claim describes.  On a well-formed heap, for an
  allocated block whose successor is the right fence and whose predecessor is allocated
  (or is the left fence), the address after the block, which \<^verbatim>\<open>mm_realloc\<close> compares
  with the null pointer in its case 5, is the address of the fence and never null; no
  in-place case applies, and the call is the general case: allocate, copy, free.  In
  \<open>filled_heap\<close> the block of 128 words at 4108 is at the end of the heap; resizing its
  payload 4112 to 600 bytes returns the new address 4624 after growing the heap by 152
  words, not by the fixed chunk of 128 words.
\<close>

theorem resize_at_end_falls_through:
  assumes ok: "heap_ok s (xs @ [(n, True)])" and pa: "snd (absorb_prev xs) = 0"
    and sz: "sz \<noteq> 0" and ra: "realloc_awords sz = Some aw"
  shows "load_tag (mem s) (next_blk s (word_at (heap_listp s - 4) (1 + total_words xs))) = FENCE
       \<and> inuse (load_tag (mem s) (prev_blk_footer (word_at (heap_listp s - 4) (1 + total_words xs))))
       \<and> next_blk s (word_at (heap_listp s - 4) (1 + total_words xs)) \<noteq> 0
       \<and> mm_realloc (word_at (heap_listp s - 4) (2 + total_words xs)) sz s
           = realloc_fallback (word_at (heap_listp s - 4) (2 + total_words xs)) sz
               (of_nat (4 * n - 8)) s"
proof -
  have lay: "layout_ok s (xs @ (n, True) # [])" using ok by (simp add: heap_ok_def)
  note e = realloc_entry [OF ok]
  have "load_tag (mem s) (word_at (heap_listp s - 4) (1 + total_words (xs @ [(n, True)]))) = FENCE"
    using layout_next_header [of s "xs @ [(n, True)]" "[]"] lay by simp
  then have f: "load_tag (mem s) (next_blk s (word_at (heap_listp s - 4) (1 + total_words xs))) = FENCE"
    using e(7) by (simp add: add.assoc)
  have p: "inuse (load_tag (mem s) (prev_blk_footer (word_at (heap_listp s - 4) (1 + total_words xs))))"
    using neighbour_tags(1) [OF lay] pa by simp
  have "fst (absorb_next []) = 0" by (simp add: absorb_next_def)
  then have "mm_realloc (word_at (heap_listp s - 4) (2 + total_words xs)) sz s
           = realloc_fallback (word_at (heap_listp s - 4) (2 + total_words xs)) sz
               (of_nat (4 * n - 8)) s"
    using realloc_falls_back [OF ok sz ra] pa by simp
  then show ?thesis using f p e(7,8) by simp
qed

theorem resize_at_end_falls_through_witness:
  "heap_ok filled_heap ([] @ [(128, True)]) \<and> snd (absorb_prev []) = 0
   \<and> (600 :: size_t) \<noteq> 0 \<and> realloc_awords 600 = Some 152
   \<and> next_blk filled_heap 4108 = 4620
   \<and> load_tag (mem filled_heap) 4620 = FENCE
   \<and> mm_realloc 4112 600 filled_heap = realloc_fallback 4112 600 504 filled_heap
   \<and> map_option fst (mm_realloc 4112 600 filled_heap) = Some 4624
   \<and> mem_brk filled_heap = 4624
   \<and> map_option (\<lambda>(r, s1). mem_brk s1) (mm_malloc 600 filled_heap) = Some 5232"
proof -
  have h: "heap_ok filled_heap ([] @ [(128, True)])" using filled_heap_ok by simp
  have a: "realloc_awords 600 = Some 152" by (simp add: eval_defs)
  have p: "snd (absorb_prev []) = 0" by (simp add: absorb_prev_def)
  have c: "heap_listp filled_heap = 4108" "mem_brk filled_heap = 4624"
    "next_blk filled_heap 4108 = 4620"
    by (simp_all add: filled_heap_def mk_heap_defs eval_defs)
  have m: "map_option (\<lambda>(r, s1). (r, mem_brk s1)) (mm_malloc 600 filled_heap) = Some (4624, 5232)"
    unfolding filled_heap_def by (simp add: mk_heap_defs eval_defs)
  from realloc_fallback_correct [OF h, of 600] m c(1)
  have r: "map_option fst (realloc_fallback 4112 600 504 filled_heap) = Some 4624"
    by (auto simp: word_at_def)
  show ?thesis
    using h a p c m r resize_at_end_falls_through [OF h p _ a]
    by (auto simp: word_at_def)
qed

section \<open>The general case of resize\<close>

text \<open>
  Claim C5: on a well-formed heap, for a resize call on an allocated block of \<open>n\<close> words
  with a new size that is not 0 and whose normalisation does not overflow, when none of
  the in-place cases applies the call is the general case.  If the fresh allocation
  fails, the call returns the null pointer and the allocator state, and with it the
  original block, its tags and its payload, is exactly the state before the call.  If it
  succeeds with the pointer \<open>r\<close>, the call returns \<open>r\<close>, the payload of a block of \<open>c\<close>
  words that is apart from the old block and large enough for the new size; the first
  \<open>min(newSize, old payload size)\<close> bytes of the new payload are the bytes of the old
  payload as they were before the call, and the other bytes of the new payload are as
  the allocation left them; the old block is freed: the heap is well-formed again, the
  words of the old block lie in a free block, and the allocated blocks are the former
  ones without the old block and with the new one.
\<close>

theorem resize_fallback_copies_or_keeps:
  assumes ok: "heap_ok s (xs @ (n, True) # ys)" and sz: "sz \<noteq> 0"
    and ra: "realloc_awords sz = Some aw"
    and no: "inplace_blocks xs n ys (unat aw) = None"
  shows "\<exists>r s1. mm_malloc sz s = Some (r, s1)
     \<and> (r = 0 \<longrightarrow> s1 = s
           \<and> mm_realloc (word_at (heap_listp s - 4) (2 + total_words xs)) sz s = Some (0, s))
     \<and> (r \<noteq> 0 \<longrightarrow>
          (\<exists>s' zs c ws us f vs.
             mm_realloc (word_at (heap_listp s - 4) (2 + total_words xs)) sz s = Some (r, s')
           \<and> heap_ok s1 (zs @ (c, True) # ws)
           \<and> r = word_at (heap_listp s - 4) (2 + total_words zs)
           \<and> unat sz + 8 \<le> 4 * c
           \<and> (total_words xs + n \<le> total_words zs \<or> total_words zs + c \<le> total_words xs)
           \<and> heap_listp s' = heap_listp s \<and> mem_max_addr s' = mem_max_addr s
           \<and> heap_ok s' (us @ (f, False) # vs)
           \<and> total_words us \<le> total_words xs \<and> total_words xs + n \<le> total_words us + f
           \<and> set (used_blocks 1 (us @ (f, False) # vs))
               = insert (1 + total_words zs, c) (set (used_blocks 1 (xs @ (n, True) # ys)))
                 - {(1 + total_words xs, n)}
           \<and> (\<forall>i < 4 * c - 8.
                 mem s' (r + of_nat i) =
                   (if i < min (unat sz) (4 * n - 8)
                    then mem s (word_at (heap_listp s - 4) (2 + total_words xs) + of_nat i)
                    else mem s1 (r + of_nat i)))))"
  unfolding realloc_falls_back [OF ok sz ra inplace_blocks_None [OF no]]
  by (rule realloc_fallback_correct [OF ok])

theorem resize_fallback_copies_or_keeps_witness:
  "heap_ok one_used_heap ([] @ (8, True) # [(120, False)])
   \<and> heap_ok full_heap ([] @ (128, True) # [])
   \<and> (600 :: size_t) \<noteq> 0 \<and> realloc_awords 600 = Some 152
   \<and> inplace_blocks [] 8 [(120, False)] (unat (152 :: size_t)) = None
   \<and> inplace_blocks [] 128 [] (unat (152 :: size_t)) = None
   \<and> mm_realloc 4112 600 full_heap = Some (0, full_heap)
   \<and> (\<exists>s'. mm_realloc 4112 600 one_used_heap = Some (4144, s')
          \<and> (\<forall>i < 24. mem s' (4144 + of_nat i) = mem one_used_heap (4112 + of_nat i)))"
proof -
  have h1: "heap_ok one_used_heap ([] @ (8, True) # [(120, False)])"
    using one_used_heap_ok by simp
  have h2: "heap_ok full_heap ([] @ (128, True) # [])" using full_heap_ok by simp
  have a: "realloc_awords 600 = Some 152" by (simp add: eval_defs)
  have n1: "inplace_blocks [] 8 [(120, False)] (unat (152 :: size_t)) = None"
    and n2: "inplace_blocks [] 128 [] (unat (152 :: size_t)) = None"
    by (simp_all add: inplace_blocks_def absorb_prev_def absorb_next_def)
  have c: "heap_listp one_used_heap = 4108" "heap_listp full_heap = 4108"
    by (simp_all add: one_used_heap_def full_heap_def mk_heap_def)
  have m1: "map_option fst (mm_malloc 600 one_used_heap) = Some 4144"
    unfolding one_used_heap_def by (simp add: mk_heap_defs eval_defs)
  have m2: "map_option fst (mm_malloc 600 full_heap) = Some 0"
    unfolding full_heap_def by (simp add: mk_heap_defs eval_defs)
  have f: "mm_realloc 4112 600 full_heap = Some (0, full_heap)"
    using resize_fallback_copies_or_keeps [OF h2 _ a n2] m2 c(2)
    by (auto simp: word_at_def)
  have p: "word_at (heap_listp one_used_heap - 4) (2 + total_words []) = 4112"
    by (simp add: c word_at_def)
  from resize_fallback_copies_or_keeps [OF h1 _ a n1, unfolded p] obtain r s1 where
    A: "mm_malloc 600 one_used_heap = Some (r, s1)"
    and B: "r \<noteq> 0 \<longrightarrow>
          (\<exists>s' cc. mm_realloc 4112 600 one_used_heap = Some (r, s')
           \<and> unat (600 :: size_t) + 8 \<le> 4 * cc
           \<and> (\<forall>i < 4 * cc - 8.
                 mem s' (r + of_nat i) =
                   (if i < min (unat (600 :: size_t)) (4 * 8 - 8)
                    then mem one_used_heap (4112 + of_nat i)
                    else mem s1 (r + of_nat i))))"
    by auto
  have r: "r = 4144" using A m1 by simp
  from B r obtain s' cc where
    run: "mm_realloc 4112 600 one_used_heap = Some (4144, s')"
    and cc: "unat (600 :: size_t) + 8 \<le> 4 * cc"
    and data: "\<forall>i < 4 * cc - 8.
                 mem s' (4144 + of_nat i) =
                   (if i < min (unat (600 :: size_t)) (4 * 8 - 8)
                    then mem one_used_heap (4112 + of_nat i)
                    else mem s1 (4144 + of_nat i))"
    by auto
  have "mem s' (4144 + of_nat i) = mem one_used_heap (4112 + of_nat i)" if "i < 24" for i
  proof -
    have "i < 4 * cc - 8" using that cc by simp
    moreover have "i < min (unat (600 :: size_t)) (4 * 8 - 8)" using that by simp
    ultimately show ?thesis using data by simp
  qed
  then show ?thesis using h1 h2 a n1 n2 f run by auto
qed

section \<open>Headers, footers and the write path of the tags\<close>

text \<open>
  Claim C8, as stated: no code other than the single write path, which updates header and
  footer together, writes a boundary tag.  \<^verbatim>\<open>mm_init\<close> on \<open>fresh_arena\<close> returns 0 and
  has written four tags, of which only the tag of the first free block went through
  \<^verbatim>\<open>set_header_and_footer\<close>: the prologue fence at 4104 and the first epilogue fence at
  4108 are assigned directly by \<^verbatim>\<open>mm_init\<close>, the epilogue fence at 4620 by
  \<^verbatim>\<open>extend_heap\<close>.
\<close>

theorem init_writes_fences_directly:
  "map_option (\<lambda>(r, s'). (r, tag_writes s')) (mm_init fresh_arena)
     = Some (0, [Direct 4620 FENCE, Header_and_footer 4108 (tag False 128),
                 Direct 4108 FENCE, Direct 4104 FENCE])"
  unfolding fresh_arena_def
  by (simp add: mk_heap_defs eval_defs)

text \<open>
  Claim C8, amended: \<^verbatim>\<open>mm_init\<close> on an arena with room for the fences and the first
  chunk (and smaller than four gibibytes) returns 0 and leaves a well-formed heap; on a
  well-formed heap, the footer of every block, allocated or free, is byte for byte its
  header; allocate, and free and resize of the payload of an allocated block, return and
  leave a well-formed heap again, so the footers equal the headers after every public
  operation.  Every write of the size and in-use state of a block goes through
  \<^verbatim>\<open>set_header_and_footer\<close>; the only tags that are assigned directly are fences: if
  the log of tag writes holds no direct write other than of a fence before a public
  operation, it holds none after it.
\<close>

theorem tags_written_together:
  "(mem_brk a \<noteq> 0 \<and> unat (mem_brk a) + 528 \<le> unat (mem_max_addr a)
      \<and> unat (mem_max_addr a) \<le> unat (mem_brk a) + 8 + 2 ^ 32
      \<and> fences_only (tag_writes a) \<longrightarrow>
      (\<exists>s'. mm_init a = Some (0, s') \<and> heap_ok s' [(128, False)]
            \<and> fences_only (tag_writes s')))
   \<and> (heap_ok s bs \<and> fences_only (tag_writes s) \<longrightarrow>
        (\<forall>xs n u ys d. bs = xs @ (n, u) # ys \<and> d < 4 \<longrightarrow>
            mem s (get_footer s (word_at (heap_listp s - 4) (1 + total_words xs)) + of_nat d)
              = mem s (word_at (heap_listp s - 4) (1 + total_words xs) + of_nat d))
      \<and> (\<exists>r s' bs'. mm_malloc sz s = Some (r, s') \<and> heap_ok s' bs'
             \<and> fences_only (tag_writes s'))
      \<and> (\<forall>xs n ys. bs = xs @ (n, True) # ys \<longrightarrow>
            (\<exists>s' bs'. mm_free (word_at (heap_listp s - 4) (2 + total_words xs)) s = Some s'
                \<and> heap_ok s' bs' \<and> fences_only (tag_writes s'))
          \<and> (\<exists>r s' bs'. mm_realloc (word_at (heap_listp s - 4) (2 + total_words xs)) sz s
                            = Some (r, s')
                \<and> heap_ok s' bs' \<and> fences_only (tag_writes s'))))"
proof (intro conjI impI allI; (elim conjE)?)
  assume "mem_brk a \<noteq> 0" "unat (mem_brk a) + 528 \<le> unat (mem_max_addr a)"
    "unat (mem_max_addr a) \<le> unat (mem_brk a) + 8 + 2 ^ 32" and fo: "fences_only (tag_writes a)"
  from mm_init_correct [OF this(1,2,3)] obtain s' where
    s': "mm_init a = Some (0, s')" "heap_ok s' [(128, False)]" by blast
  from tw_mm_init [OF s'(1) fo] s'
  show "\<exists>s'. mm_init a = Some (0, s') \<and> heap_ok s' [(128, False)] \<and> fences_only (tag_writes s')"
    by blast
next
  fix xs n u ys and d :: nat
  assume "heap_ok s bs" "bs = xs @ (n, u) # ys" "d < 4"
  then show "mem s (get_footer s (word_at (heap_listp s - 4) (1 + total_words xs)) + of_nat d)
              = mem s (word_at (heap_listp s - 4) (1 + total_words xs) + of_nat d)"
    using header_footer_bytes [of s xs n u ys d] by simp
next
  assume ok: "heap_ok s bs" and fo: "fences_only (tag_writes s)"
  from mm_malloc_correct [OF ok, of sz] obtain r s' where
    m: "mm_malloc sz s = Some (r, s')" and z: "r = 0 \<longrightarrow> s' = s"
    and nz: "r \<noteq> 0 \<longrightarrow> (\<exists>bs'. heap_ok s' bs')"
    by blast
  have "\<exists>bs'. heap_ok s' bs'" using z nz ok by (cases "r = 0") auto
  then show "\<exists>r s' bs'. mm_malloc sz s = Some (r, s') \<and> heap_ok s' bs' \<and> fences_only (tag_writes s')"
    using m tw_mm_malloc [OF m fo] by blast
next
  fix xs n ys
  assume ok: "heap_ok s bs" and fo: "fences_only (tag_writes s)" and bs: "bs = xs @ (n, True) # ys"
  from mm_free_full [OF ok [unfolded bs]] obtain s' where
    f: "mm_free (word_at (heap_listp s - 4) (2 + total_words xs)) s = Some s'"
    "heap_ok s' (coalesce_blocks xs n ys)"
    by blast
  then show "\<exists>s' bs'. mm_free (word_at (heap_listp s - 4) (2 + total_words xs)) s = Some s'
                \<and> heap_ok s' bs' \<and> fences_only (tag_writes s')"
    using tw_mm_free [OF f(1) fo] by blast
next
  fix xs n ys
  assume ok: "heap_ok s bs" and fo: "fences_only (tag_writes s)" and bs: "bs = xs @ (n, True) # ys"
  from mm_realloc_preserves [OF ok [unfolded bs], of sz] obtain r s' bs' where
    f: "mm_realloc (word_at (heap_listp s - 4) (2 + total_words xs)) sz s = Some (r, s')"
    "heap_ok s' bs'"
    by blast
  then show "\<exists>r s' bs'. mm_realloc (word_at (heap_listp s - 4) (2 + total_words xs)) sz s
                            = Some (r, s')
                \<and> heap_ok s' bs' \<and> fences_only (tag_writes s')"
    using tw_mm_realloc [OF f(1) fo] by blast
qed

theorem tags_written_together_witness:
  "((mem_brk fresh_arena \<noteq> 0 \<and> unat (mem_brk fresh_arena) + 528 \<le> unat (mem_max_addr fresh_arena)
      \<and> unat (mem_max_addr fresh_arena) \<le> unat (mem_brk fresh_arena) + 8 + 2 ^ 32
      \<and> fences_only (tag_writes fresh_arena))
    \<and> (\<exists>s'. mm_init fresh_arena = Some (0, s') \<and> heap_ok s' [(128, False)]
           \<and> fences_only (tag_writes s')))
   \<and> (heap_ok one_used_heap [(8, True), (120, False)] \<and> fences_only (tag_writes one_used_heap))
   \<and> get_footer one_used_heap 4108 = 4136
   \<and> mem one_used_heap 4136 = mem one_used_heap 4108
   \<and> mem one_used_heap 4137 = mem one_used_heap 4109
   \<and> mem one_used_heap 4138 = mem one_used_heap 4110
   \<and> mem one_used_heap 4139 = mem one_used_heap 4111
   \<and> (\<exists>r s' bs'. mm_malloc 24 one_used_heap = Some (r, s') \<and> heap_ok s' bs'
          \<and> fences_only (tag_writes s'))
   \<and> (\<exists>s' bs'. mm_free 4112 one_used_heap = Some s' \<and> heap_ok s' bs'
          \<and> fences_only (tag_writes s'))
   \<and> (\<exists>r s' bs'. mm_realloc 4112 40 one_used_heap = Some (r, s') \<and> heap_ok s' bs'
          \<and> fences_only (tag_writes s'))"
proof -
  let ?bs = "[(8, True), (120, False)]"
  have A: "mem_brk fresh_arena \<noteq> 0 \<and> unat (mem_brk fresh_arena) + 528 \<le> unat (mem_max_addr fresh_arena)
      \<and> unat (mem_max_addr fresh_arena) \<le> unat (mem_brk fresh_arena) + 8 + 2 ^ 32
      \<and> fences_only (tag_writes fresh_arena)"
    by (simp add: fresh_arena_def)
  have H: "heap_ok one_used_heap ?bs \<and> fences_only (tag_writes one_used_heap)"
    using one_used_heap_ok by (simp add: one_used_heap_def mk_heap_def)
  have c: "heap_listp one_used_heap = 4108"
    by (simp add: one_used_heap_def mk_heap_def)
  have g: "get_footer one_used_heap 4108 = 4136"
    by (simp add: one_used_heap_def mk_heap_defs get_footer_def eval_defs)
  note T24 = tags_written_together [of fresh_arena one_used_heap ?bs 24]
  note T40 = tags_written_together [of fresh_arena one_used_heap ?bs 40]
  note init = T24 [THEN conjunct1, rule_format, OF A]
  note P24 = T24 [THEN conjunct2, rule_format, OF H]
  note P40 = T40 [THEN conjunct2, rule_format, OF H]
  note bytes = P24 [THEN conjunct1, rule_format, of "[]" 8 True "[(120, False)]"]
  note alloc = P24 [THEN conjunct2, THEN conjunct1]
  note old = P40 [THEN conjunct2, THEN conjunct2, rule_format, of "[]" 8 "[(120, False)]"]
  have b: "mem one_used_heap 4136 = mem one_used_heap 4108"
    "mem one_used_heap 4137 = mem one_used_heap 4109"
    "mem one_used_heap 4138 = mem one_used_heap 4110"
    "mem one_used_heap 4139 = mem one_used_heap 4111"
    using bytes [of 0] bytes [of 1] bytes [of 2] bytes [of 3] c g
    by (simp_all add: word_at_def)
  have f: "\<exists>s' bs'. mm_free 4112 one_used_heap = Some s' \<and> heap_ok s' bs'
          \<and> fences_only (tag_writes s')"
    and r: "\<exists>r s' bs'. mm_realloc 4112 40 one_used_heap = Some (r, s') \<and> heap_ok s' bs'
          \<and> fences_only (tag_writes s')"
    using old c by (simp_all add: word_at_def)
  show ?thesis
    using A init H g b alloc f r by (simp only: simp_thms)
qed

end
